theory Spec2Isabelle
  imports Main "HOL-Library.Sublist"
begin

section \<open>Iterative name resolver: data model\<close>

text \<open>
  The embedding follows \<^verbatim>\<open>idr_starter.py\<close>. Everything the program obtains from
  outside (the UDP exchange, the \<^verbatim>\<open>dnslib\<close> parsers, \<^verbatim>\<open>gethostbyname\<close>) is a field
  of the record \<open>net\<close>; every theorem holds for all values of it. The calls the program
  makes to the outside are recorded, in order, in a history of events.
\<close>

text \<open>The record types the program compares against: \<^verbatim>\<open>QTYPE.A\<close>, \<^verbatim>\<open>QTYPE.NS\<close>,
  \<^verbatim>\<open>QTYPE.CNAME\<close>, and any other.\<close>

datatype rtype = T_A | T_NS | T_CNAME | T_OTHER

text \<open>A parsed resource record, as far as the program reads it: \<open>rname\<close> is
  \<^verbatim>\<open>str(rr.rname)\<close>, \<open>rdata\<close> is \<^verbatim>\<open>str(rr.rdata)\<close> (for a CNAME record this is the text
  of \<^verbatim>\<open>rr.rdata.label\<close>).\<close>

record rr =
  rname :: string
  rtype :: rtype
  rdata :: string

text \<open>The header fields \<^verbatim>\<open>id\<close>, \<^verbatim>\<open>rcode\<close>, \<^verbatim>\<open>q\<close>, \<^verbatim>\<open>a\<close>, \<^verbatim>\<open>auth\<close>, \<^verbatim>\<open>ar\<close>.\<close>

record header =
  h_id :: nat
  h_rcode :: nat
  h_q :: nat
  h_a :: nat
  h_auth :: nat
  h_ar :: nat

text \<open>The dictionary returned by \<^verbatim>\<open>get_dns_record\<close>.\<close>

record response =
  answers :: "rr list"
  authority :: "rr list"
  additional :: "rr list"

text \<open>An event is one call to the outside: \<open>Query domain server record_type\<close> for a call
  of \<^verbatim>\<open>get_dns_record\<close>, \<open>Lookup host\<close> for a call of \<^verbatim>\<open>gethostbyname\<close>.\<close>

datatype event = Query string string rtype | Lookup string

text \<open>What building the question, \<^verbatim>\<open>sendto\<close> and \<^verbatim>\<open>recvfrom\<close> do together: one of them
  raises, or \<^verbatim>\<open>recvfrom\<close> never returns (there is no timeout), or a packet arrives; the
  number is the transaction id of the question that was built.\<close>

datatype 'b received = Raises | Blocks | Packet nat 'b

text \<open>The outside world. The history passed to \<open>transport\<close> and \<open>gethostbyname\<close> ends with
  the event being served, so a reply may depend on everything that went before. The parsers
  read from a buffer and return what is left of it; \<open>None\<close> is a raised exception.\<close>

record 'b net =
  transport :: "event list \<Rightarrow> 'b received"
  parse_header :: "'b \<Rightarrow> (header \<times> 'b) option"
  parse_question :: "'b \<Rightarrow> 'b option"
  parse_rr :: "'b \<Rightarrow> (rr \<times> 'b) option"
  gethostbyname :: "event list \<Rightarrow> string option"

definition ROOT_SERVER :: string where
  "ROOT_SERVER = ''199.7.83.42''"

definition NOERROR :: nat where
  "NOERROR = 0"

subsection \<open>The cache\<close>

text \<open>The global \<^verbatim>\<open>cache\<close> is a dict from domain to a dict with the keys \<^verbatim>\<open>"NS"\<close>,
  \<^verbatim>\<open>"NS_IP"\<close> and \<^verbatim>\<open>"A"\<close>. The key fixes the type of the value, so a bucket is a tagged
  value. Python dicts keep insertion order and \<^verbatim>\<open>list_cache\<close> and \<^verbatim>\<open>remove_cache_N\<close> depend
  on it, so each dict is the list of its items in insertion order.\<close>

datatype rkey = K_NS | K_NS_IP | K_A

type_synonym glue = "(string \<times> string list) list"

datatype bucket = B_NS "string list" | B_NS_IP glue | B_A "string list"

fun key_of :: "bucket \<Rightarrow> rkey" where
  "key_of (B_NS _) = K_NS"
| "key_of (B_NS_IP _) = K_NS_IP"
| "key_of (B_A _) = K_A"

type_synonym entry = "bucket list"

type_synonym cache = "(string \<times> entry) list"

text \<open>\<^verbatim>\<open>d[k] = v\<close> on an insertion-ordered dict: an existing key keeps its place, a new
  key goes last.\<close>

fun dict_set :: "'k \<Rightarrow> 'v \<Rightarrow> ('k \<times> 'v) list \<Rightarrow> ('k \<times> 'v) list" where
  "dict_set k v [] = [(k, v)]"
| "dict_set k v (p # ps) = (if fst p = k then (k, v) # ps else p # dict_set k v ps)"

text \<open>\<^verbatim>\<open>del d[k]\<close>.\<close>

fun dict_del :: "'k \<Rightarrow> ('k \<times> 'v) list \<Rightarrow> ('k \<times> 'v) list" where
  "dict_del k [] = []"
| "dict_del k (p # ps) = (if fst p = k then ps else p # dict_del k ps)"

text \<open>\<^verbatim>\<open>records[key] = value\<close> and \<^verbatim>\<open>del records[key]\<close> on an entry.\<close>

fun entry_set :: "bucket \<Rightarrow> entry \<Rightarrow> entry" where
  "entry_set b [] = [b]"
| "entry_set b (x # xs) = (if key_of x = key_of b then b # xs else x # entry_set b xs)"

fun entry_del :: "rkey \<Rightarrow> entry \<Rightarrow> entry" where
  "entry_del k [] = []"
| "entry_del k (x # xs) = (if key_of x = k then xs else x # entry_del k xs)"

fun entry_get :: "entry \<Rightarrow> rkey \<Rightarrow> bucket option" where
  "entry_get [] k = None"
| "entry_get (x # xs) k = (if key_of x = k then Some x else entry_get xs k)"

text \<open>\<^verbatim>\<open>cache.get(domain, {})\<close>.\<close>

definition cache_entry :: "cache \<Rightarrow> string \<Rightarrow> entry" where
  "cache_entry c d = (case map_of c d of None \<Rightarrow> [] | Some e \<Rightarrow> e)"

text \<open>\<^verbatim>\<open>domain in cache and key in cache[domain]\<close>, with the value when it holds.\<close>

definition cache_get :: "cache \<Rightarrow> string \<Rightarrow> rkey \<Rightarrow> bucket option" where
  "cache_get c d k = entry_get (cache_entry c d) k"

definition cache_A :: "cache \<Rightarrow> string \<Rightarrow> string list option" where
  "cache_A c d = (case cache_get c d K_A of Some (B_A ips) \<Rightarrow> Some ips | _ \<Rightarrow> None)"

definition cache_NS :: "cache \<Rightarrow> string \<Rightarrow> string list option" where
  "cache_NS c d = (case cache_get c d K_NS of Some (B_NS ns) \<Rightarrow> Some ns | _ \<Rightarrow> None)"

text \<open>\<^verbatim>\<open>cache[curr_domain].get("NS_IP", {})\<close>.\<close>

definition cache_NS_IP :: "cache \<Rightarrow> string \<Rightarrow> glue" where
  "cache_NS_IP c d = (case cache_get c d K_NS_IP of Some (B_NS_IP g) \<Rightarrow> g | _ \<Rightarrow> [])"

text \<open>\<^verbatim>\<open>if domain not in cache: cache[domain] = {}\<close> followed by
  \<^verbatim>\<open>cache[domain][key] = value\<close>.\<close>

definition cache_put :: "cache \<Rightarrow> string \<Rightarrow> bucket \<Rightarrow> cache" where
  "cache_put c d b = dict_set d (entry_set b (cache_entry c d)) c"

section \<open>Strings\<close>

text \<open>\<^verbatim>\<open>s.rstrip('.')\<close>.\<close>

definition rstrip_dot :: "string \<Rightarrow> string" where
  "rstrip_dot s = rev (dropWhile (\<lambda>c. c = CHR ''.'') (rev s))"

text \<open>\<^verbatim>\<open>s.split('.')\<close>: the empty string gives one empty part.\<close>

fun split_dot :: "string \<Rightarrow> string list" where
  "split_dot [] = [[]]"
| "split_dot (c # cs) =
     (if c = CHR ''.'' then [] # split_dot cs
      else (case split_dot cs of [] \<Rightarrow> [[c]] | p # ps \<Rightarrow> (c # p) # ps))"

text \<open>\<^verbatim>\<open>'.'.join(parts)\<close>.\<close>

fun join_dot :: "string list \<Rightarrow> string" where
  "join_dot [] = []"
| "join_dot [p] = p"
| "join_dot (p # q # ps) = p @ CHR ''.'' # join_dot (q # ps)"

text \<open>The values \<^verbatim>\<open>curr_domain\<close> takes in the loop
  \<^verbatim>\<open>for i in range(len(domain_parts)-1, -1, -1)\<close>, in the order of the loop.\<close>

definition suffixes_of :: "string \<Rightarrow> string list" where
  "suffixes_of domain =
     (let domain_parts = split_dot domain
      in map (\<lambda>i. join_dot (drop i domain_parts)) (rev [0..<length domain_parts]))"

section \<open>The message exchange\<close>

text \<open>\<^verbatim>\<open>for _ in range(header.q): DNSQuestion.parse(buff)\<close>.\<close>

fun skip_questions :: "'b net \<Rightarrow> nat \<Rightarrow> 'b \<Rightarrow> 'b option" where
  "skip_questions net 0 buff = Some buff"
| "skip_questions net (Suc n) buff =
     (case parse_question net buff of None \<Rightarrow> None
      | Some buff' \<Rightarrow> skip_questions net n buff')"

text \<open>\<^verbatim>\<open>for k in range(n): rr = RR.parse(buff); section.append(rr)\<close>.\<close>

fun parse_section :: "'b net \<Rightarrow> nat \<Rightarrow> 'b \<Rightarrow> (rr list \<times> 'b) option" where
  "parse_section net 0 buff = Some ([], buff)"
| "parse_section net (Suc n) buff =
     (case parse_rr net buff of None \<Rightarrow> None
      | Some (r, buff') \<Rightarrow>
          (case parse_section net n buff' of None \<Rightarrow> None
           | Some (rs, buff'') \<Rightarrow> Some (r # rs, buff'')))"

text \<open>The part of \<^verbatim>\<open>get_dns_record\<close> after the header check: the four sections in
  order. \<open>None\<close> is an exception raised by a parser.\<close>

definition parse_body :: "'b net \<Rightarrow> header \<Rightarrow> 'b \<Rightarrow> response option" where
  "parse_body net hdr buff =
     (case skip_questions net (h_q hdr) buff of None \<Rightarrow> None
      | Some b1 \<Rightarrow>
     (case parse_section net (h_a hdr) b1 of None \<Rightarrow> None
      | Some (ans, b2) \<Rightarrow>
     (case parse_section net (h_auth hdr) b2 of None \<Rightarrow> None
      | Some (auth, b3) \<Rightarrow>
     (case parse_section net (h_ar hdr) b3 of None \<Rightarrow> None
      | Some (addl, b4) \<Rightarrow>
          Some \<lparr>answers = ans, authority = auth, additional = addl\<rparr>))))"

text \<open>What \<^verbatim>\<open>get_dns_record\<close> does with a received packet: \<open>None\<close> is the Python
  \<^verbatim>\<open>None\<close>, returned at the header check or from the \<^verbatim>\<open>except\<close> clause.\<close>

definition decode :: "'b net \<Rightarrow> nat \<Rightarrow> 'b \<Rightarrow> response option" where
  "decode net qid pkt =
     (case parse_header net pkt of None \<Rightarrow> None
      | Some (hdr, buff) \<Rightarrow>
          if qid \<noteq> h_id hdr \<or> h_rcode hdr \<noteq> NOERROR then None
          else parse_body net hdr buff)"

text \<open>\<^verbatim>\<open>get_dns_record(sock, domain, parent_server, record_type)\<close>. The outer \<open>None\<close>
  means the call never returns (the receive blocks for ever); otherwise the result is the
  Python return value (\<open>None\<close> or the dictionary) and the history with this call added.\<close>

definition get_dns_record ::
  "'b net \<Rightarrow> event list \<Rightarrow> string \<Rightarrow> string \<Rightarrow> rtype \<Rightarrow> (response option \<times> event list) option" where
  "get_dns_record net h domain parent_server record_type =
     (let h' = h @ [Query domain parent_server record_type]
      in case transport net h' of
           Blocks \<Rightarrow> None
         | Raises \<Rightarrow> Some (None, h')
         | Packet qid pkt \<Rightarrow> Some (decode net qid pkt, h'))"

section \<open>The resolver\<close>

text \<open>The list \<^verbatim>\<open>ns_answers\<close>: the NS records of answers + authority, in order.\<close>

definition ns_answers_of :: "response \<Rightarrow> string list" where
  "ns_answers_of r =
     map (\<lambda>ans. rstrip_dot (rdata ans))
       (filter (\<lambda>ans. rtype ans = T_NS) (answers r @ authority r))"

text \<open>The dict \<^verbatim>\<open>ns_ips\<close>, filled from the additional section.\<close>

fun ns_ips_of :: "string list \<Rightarrow> rr list \<Rightarrow> glue \<Rightarrow> glue" where
  "ns_ips_of ns_answers [] ns_ips = ns_ips"
| "ns_ips_of ns_answers (ans # rest) ns_ips =
     (if rtype ans = T_A \<and> rstrip_dot (rname ans) \<in> set ns_answers
      then ns_ips_of ns_answers rest (dict_set (rstrip_dot (rname ans)) [rdata ans] ns_ips)
      else ns_ips_of ns_answers rest ns_ips)"

text \<open>The loop \<^verbatim>\<open>for ns in names: if ns in ips: ... ips[ns] ...; break\<close>: the glue entry of
  the first name that has one.\<close>

fun first_glue :: "string list \<Rightarrow> glue \<Rightarrow> (string \<times> string list) option" where
  "first_glue [] ips = None"
| "first_glue (ns # rest) ips =
     (case map_of ips ns of Some l \<Rightarrow> Some (ns, l) | None \<Rightarrow> first_glue rest ips)"

text \<open>The fallback loop over \<^verbatim>\<open>gethostbyname\<close>: a raised exception moves on to the next
  name, the first address returned ends the loop.\<close>

fun host_fallback :: "'b net \<Rightarrow> event list \<Rightarrow> string list \<Rightarrow> string option \<times> event list" where
  "host_fallback net h [] = (None, h)"
| "host_fallback net h (ns # rest) =
     (let h' = h @ [Lookup (rstrip_dot ns)]
      in case gethostbyname net h' of
           Some ip \<Rightarrow> (Some ip, h')
         | None \<Rightarrow> host_fallback net h' rest)"

text \<open>An uncaught Python exception leaving \<^verbatim>\<open>resolve\<close>.\<close>

datatype error = IndexError

text \<open>The choice of the next server from \<^verbatim>\<open>ns_answers\<close> and \<^verbatim>\<open>ns_ips\<close>: the value of
  \<^verbatim>\<open>next_server\<close> after both loops (\<open>None\<close> when it is still \<^verbatim>\<open>None\<close>).\<close>

definition select_server ::
  "'b net \<Rightarrow> event list \<Rightarrow> string list \<Rightarrow> glue \<Rightarrow> (error + string option) \<times> event list" where
  "select_server net h ns_answers ns_ips =
     (case first_glue ns_answers ns_ips of
        Some (ns, []) \<Rightarrow> (Inl IndexError, h)
      | Some (ns, ip # _) \<Rightarrow> (Inr (Some ip), h)
      | None \<Rightarrow> (case host_fallback net h ns_answers of (r, h') \<Rightarrow> (Inr r, h')))"

text \<open>How one round of the loop over the suffixes ends: it goes on to the next suffix
  with a server, leaves the loop by \<^verbatim>\<open>break\<close>, leaves \<^verbatim>\<open>resolve\<close> by \<^verbatim>\<open>return None\<close>, or
  raises.\<close>

datatype step = Next cache "event list" string
  | Break cache "event list"
  | ReturnNone cache "event list"
  | Raise error cache "event list"

text \<open>The round for a suffix whose NS bucket is cached: no call to the outside; the
  server changes only if a listed name has an \<^verbatim>\<open>NS_IP\<close> entry.\<close>

definition cached_step :: "cache \<Rightarrow> event list \<Rightarrow> string \<Rightarrow> string list \<Rightarrow> string \<Rightarrow> step" where
  "cached_step cache h server ns_cache curr_domain =
     (case first_glue ns_cache (cache_NS_IP cache curr_domain) of
        None \<Rightarrow> Next cache h server
      | Some (ns, []) \<Rightarrow> Raise IndexError cache h
      | Some (ns, ip # _) \<Rightarrow> Next cache h ip)"

text \<open>The round for a suffix whose NS bucket is not cached. The outer \<open>None\<close> is a
  query that never returns.\<close>

definition query_step :: "'b net \<Rightarrow> cache \<Rightarrow> event list \<Rightarrow> string \<Rightarrow> string \<Rightarrow> step option" where
  "query_step net cache h server curr_domain =
     (case get_dns_record net h curr_domain server T_NS of
        None \<Rightarrow> None
      | Some (None, h1) \<Rightarrow> Some (ReturnNone cache h1)
      | Some (Some response, h1) \<Rightarrow>
          (let ns_answers = ns_answers_of response
           in if ns_answers = [] then Some (Break cache h1)
              else
                (let ns_ips = ns_ips_of ns_answers (additional response) [];
                     cache1 = cache_put (cache_put cache curr_domain (B_NS ns_answers))
                                curr_domain (B_NS_IP ns_ips)
                 in case select_server net h1 ns_answers ns_ips of
                      (Inl e, h2) \<Rightarrow> Some (Raise e cache1 h2)
                    | (Inr None, h2) \<Rightarrow> Some (ReturnNone cache1 h2)
                    | (Inr (Some next_server), h2) \<Rightarrow> Some (Next cache1 h2 next_server))))"

text \<open>One round of the loop over the suffixes: the cache decides which of the two it is.\<close>

definition loop_body :: "'b net \<Rightarrow> cache \<Rightarrow> event list \<Rightarrow> string \<Rightarrow> string \<Rightarrow> step option" where
  "loop_body net cache h server curr_domain =
     (case cache_NS cache curr_domain of
        Some ns_cache \<Rightarrow> Some (cached_step cache h server ns_cache curr_domain)
      | None \<Rightarrow> query_step net cache h server curr_domain)"

text \<open>The loop over the suffixes, from the suffix it is at. \<open>Walked\<close> carries the
  server the loop ends with, whether it ran to its end or was left by \<^verbatim>\<open>break\<close>.\<close>

datatype walked = Walked cache "event list" string
  | Aborted cache "event list"
  | Crashed error cache "event list"

fun walk :: "'b net \<Rightarrow> string list \<Rightarrow> cache \<Rightarrow> event list \<Rightarrow> string \<Rightarrow> walked option" where
  "walk net [] cache h server = Some (Walked cache h server)"
| "walk net (curr_domain # rest) cache h server =
     (case loop_body net cache h server curr_domain of
        None \<Rightarrow> None
      | Some (Next cache1 h1 server1) \<Rightarrow> walk net rest cache1 h1 server1
      | Some (Break cache1 h1) \<Rightarrow> Some (Walked cache1 h1 server)
      | Some (ReturnNone cache1 h1) \<Rightarrow> Some (Aborted cache1 h1)
      | Some (Raise e cache1 h1) \<Rightarrow> Some (Crashed e cache1 h1))"

text \<open>The first CNAME record of the answers, as \<^verbatim>\<open>cname\<close>.\<close>

fun find_cname :: "rr list \<Rightarrow> string option" where
  "find_cname [] = None"
| "find_cname (ans # rest) =
     (if rtype ans = T_CNAME then Some (rstrip_dot (rdata ans)) else find_cname rest)"

text \<open>The list \<^verbatim>\<open>ip_addresses\<close>.\<close>

definition a_records :: "rr list \<Rightarrow> string list" where
  "a_records anss = map rdata (filter (\<lambda>ans. rtype ans = T_A) anss)"

text \<open>What a call of \<^verbatim>\<open>resolve\<close> gives its caller: a list, \<^verbatim>\<open>None\<close>, or an exception.\<close>

datatype result = Ips "string list" | PyNone | Raised error

text \<open>\<^verbatim>\<open>resolve(domain)\<close>, on the cache and the history, both returned as they are when
  the call ends. The \<^verbatim>\<open>while True\<close> loop need not end (an alias may lead back to itself,
  a receive may block): \<open>None\<close> is a call that never returns.\<close>

partial_function (option) resolve ::
  "'b net \<Rightarrow> string \<Rightarrow> cache \<Rightarrow> event list \<Rightarrow> (result \<times> cache \<times> event list) option" where
  "resolve net domain cache h =
     (case cache_A cache domain of
        Some ips \<Rightarrow> Some (Ips ips, cache, h)
      | None \<Rightarrow>
          (case walk net (suffixes_of domain) cache h ROOT_SERVER of
             None \<Rightarrow> None
           | Some (Crashed e cache1 h1) \<Rightarrow> Some (Raised e, cache1, h1)
           | Some (Aborted cache1 h1) \<Rightarrow> Some (PyNone, cache1, h1)
           | Some (Walked cache1 h1 server) \<Rightarrow>
               (case get_dns_record net h1 domain server T_A of
                  None \<Rightarrow> None
                | Some (None, h2) \<Rightarrow> Some (PyNone, cache1, h2)
                | Some (Some response, h2) \<Rightarrow>
                    (case find_cname (answers response) of
                       Some cname \<Rightarrow> resolve net cname cache1 h2
                     | None \<Rightarrow>
                         (let ip_addresses = a_records (answers response)
                          in if ip_addresses \<noteq> []
                             then Some (Ips ip_addresses,
                                        cache_put cache1 domain (B_A ip_addresses), h2)
                             else Some (PyNone, cache1, h2))))))"

section \<open>Cache inspection\<close>

text \<open>The list \<^verbatim>\<open>items\<close> built by \<^verbatim>\<open>list_cache\<close> and by \<^verbatim>\<open>remove_cache_N\<close>.\<close>

definition cache_items :: "cache \<Rightarrow> (string \<times> rkey) list" where
  "cache_items c = concat (map (\<lambda>(domain, records). map (\<lambda>b. (domain, key_of b)) records) c)"

definition list_cache :: "cache \<Rightarrow> (string \<times> rkey) list" where
  "list_cache c = (if length c = 0 then [] else cache_items c)"

definition clear_cache :: "cache \<Rightarrow> cache" where
  "clear_cache c = []"

text \<open>What \<^verbatim>\<open>remove_cache_N\<close> prints.\<close>

datatype message = Invalid_entry_number int | Removed_cache_entry int string rkey

definition remove_cache_N :: "cache \<Rightarrow> int \<Rightarrow> cache \<times> message" where
  "remove_cache_N c N =
     (let items = cache_items c
      in if N < 1 \<or> N > int (length items) then (c, Invalid_entry_number N)
         else
           (case items ! nat (N - 1) of (domain, remove) \<Rightarrow>
              (if entry_get (cache_entry c domain) remove \<noteq> None
               then (let records = entry_del remove (cache_entry c domain)
                     in if records = [] then dict_del domain c
                        else dict_set domain records c)
               else c,
               Removed_cache_entry N domain remove)))"

section \<open>The state of the walk\<close>

text \<open>The state at the head of the loop over the suffixes: the suffixes still to visit,
  the cache, the history and \<^verbatim>\<open>server\<close>. \<open>rounds net n st\<close> is the state after \<open>n\<close>
  more rounds that all went on to the next suffix; \<open>None\<close> if the loop has ended or was
  left before that.\<close>

type_synonym wstate = "string list \<times> cache \<times> event list \<times> string"

fun rounds :: "'b net \<Rightarrow> nat \<Rightarrow> wstate \<Rightarrow> wstate option" where
  "rounds net 0 st = Some st"
| "rounds net (Suc n) ([], cache, h, server) = None"
| "rounds net (Suc n) (curr_domain # rest, cache, h, server) =
     (case loop_body net cache h server curr_domain of
        Some (Next cache1 h1 server1) \<Rightarrow> rounds net n (rest, cache1, h1, server1)
      | _ \<Rightarrow> None)"

section \<open>Concrete networks for the examples\<close>

text \<open>A packet that is already cut into its header and its records; the parsers take the
  records off one by one and fail when none is left.\<close>

type_synonym packet = "header \<times> rr list"

definition script_net ::
  "(event list \<Rightarrow> packet received) \<Rightarrow> (string \<Rightarrow> string option) \<Rightarrow> packet net" where
  "script_net reply hosts =
     \<lparr>transport = reply,
      parse_header = (\<lambda>(hdr, rs). Some (hdr, (hdr, rs))),
      parse_question = Some,
      parse_rr = (\<lambda>(hdr, rs). case rs of [] \<Rightarrow> None | r # rs' \<Rightarrow> Some (r, (hdr, rs'))),
      gethostbyname = (\<lambda>h. case last h of Lookup n \<Rightarrow> hosts n | _ \<Rightarrow> None)\<rparr>"

text \<open>A well-formed reply to a question with transaction id 7.\<close>

definition reply_packet :: "rr list \<Rightarrow> rr list \<Rightarrow> rr list \<Rightarrow> packet received" where
  "reply_packet ans auth addl =
     Packet 7 (\<lparr>h_id = 7, h_rcode = 0, h_q = 1, h_a = length ans, h_auth = length auth,
               h_ar = length addl\<rparr>, ans @ auth @ addl)"

text \<open>A network where every exchange raises and no host name resolves.\<close>

definition dead_net :: "packet net" where
  "dead_net = script_net (\<lambda>_. Raises) (\<lambda>_. None)"

text \<open>A reply without records: transaction id \<open>i\<close> (the question has id 7), response
  code \<open>rc\<close>, and a header that announces \<open>n\<close> answers.\<close>

definition bare_packet :: "nat \<Rightarrow> nat \<Rightarrow> nat \<Rightarrow> packet received" where
  "bare_packet i rc n =
     Packet 7 (\<lparr>h_id = i, h_rcode = rc, h_q = 1, h_a = n, h_auth = 0, h_ar = 0\<rparr>, [])"

text \<open>Networks whose every reply has the wrong transaction id, the response code 3
  (name error), or one answer announced and none present.\<close>

definition badid_net :: "packet net" where
  "badid_net = script_net (\<lambda>_. bare_packet 8 0 0) (\<lambda>_. None)"

definition rcode_net :: "packet net" where
  "rcode_net = script_net (\<lambda>_. bare_packet 7 3 0) (\<lambda>_. None)"

definition short_net :: "packet net" where
  "short_net = script_net (\<lambda>_. bare_packet 7 0 1) (\<lambda>_. None)"

section \<open>Well-formed caches\<close>

text \<open>A Python dict has each key once: the domains of a cache are distinct, and so are
  the bucket keys of each entry.\<close>

definition wf_cache :: "cache \<Rightarrow> bool" where
  "wf_cache c \<longleftrightarrow> distinct (map fst c) \<and> list_all (\<lambda>(d, e). distinct (map key_of e)) c"

text \<open>The cache listed as \<^verbatim>\<open>(x.com, NS), (x.com, A), (y.com, A)\<close>.\<close>

definition xy_cache :: cache where
  "xy_cache = [(''x.com'', [B_NS [''ns.x.com''], B_A [''1.1.1.1'']]), (''y.com'', [B_A [''2.2.2.2'']])]"

text \<open>Records as a server sends them: names end with a dot.\<close>

definition ns_rec :: "string \<Rightarrow> string \<Rightarrow> rr" where
  "ns_rec owner host = \<lparr>rname = owner, rtype = T_NS, rdata = host\<rparr>"

definition a_rec :: "string \<Rightarrow> string \<Rightarrow> rr" where
  "a_rec owner ip = \<lparr>rname = owner, rtype = T_A, rdata = ip\<rparr>"

definition cname_rec :: "string \<Rightarrow> string \<Rightarrow> rr" where
  "cname_rec owner target = \<lparr>rname = owner, rtype = T_CNAME, rdata = target\<rparr>"

text \<open>Three name servers for \<^verbatim>\<open>com\<close>, none with a glue record; \<open>glue_net\<close> lists two,
  the second with glue. The host names resolve for none (\<open>nohost_net\<close>), for the
  second (\<open>fallback_net\<close>), or for all (\<open>glue_net\<close>).\<close>

definition three_ns :: "event list \<Rightarrow> packet received" where
  "three_ns h = (case last h of
      Query d s T_NS \<Rightarrow>
        reply_packet [] [ns_rec ''com.'' ''ns1.com.'', ns_rec ''com.'' ''ns2.com.'',
                         ns_rec ''com.'' ''ns3.com.''] []
    | _ \<Rightarrow> Raises)"

definition glue_net :: "packet net" where
  "glue_net = script_net (\<lambda>h. case last h of
      Query d s T_NS \<Rightarrow>
        reply_packet [] [ns_rec ''com.'' ''ns1.com.'', ns_rec ''com.'' ''ns2.com.'']
          [a_rec ''ns2.com.'' ''10.0.0.2'']
    | _ \<Rightarrow> Raises) (\<lambda>_. Some ''10.9.9.9'')"

definition fallback_net :: "packet net" where
  "fallback_net = script_net three_ns (\<lambda>n. if n = ''ns2.com'' then Some ''10.0.0.9'' else None)"

definition nohost_net :: "packet net" where
  "nohost_net = script_net three_ns (\<lambda>_. None)"

text \<open>The responses the networks above give to an NS query.\<close>

definition glue_resp :: response where
  "glue_resp = \<lparr>answers = [],
      authority = [ns_rec ''com.'' ''ns1.com.'', ns_rec ''com.'' ''ns2.com.''],
      additional = [a_rec ''ns2.com.'' ''10.0.0.2'']\<rparr>"

definition three_resp :: response where
  "three_resp = \<lparr>answers = [],
      authority = [ns_rec ''com.'' ''ns1.com.'', ns_rec ''com.'' ''ns2.com.'',
                   ns_rec ''com.'' ''ns3.com.''],
      additional = []\<rparr>"

text \<open>A delegation of \<^verbatim>\<open>com\<close> to one name server with two glue addresses, and a network
  that answers every NS query with it and every A query with one address.\<close>

definition two_glue_resp :: response where
  "two_glue_resp = \<lparr>answers = [],
      authority = [ns_rec ''com.'' ''ns1.com.''],
      additional = [a_rec ''ns1.com.'' ''1.1.1.1'', a_rec ''ns1.com.'' ''2.2.2.2'']\<rparr>"

definition two_glue_net :: "packet net" where
  "two_glue_net = script_net (\<lambda>h. case last h of
      Query d s T_NS \<Rightarrow>
        reply_packet [] [ns_rec ''com.'' ''ns1.com.'']
          [a_rec ''ns1.com.'' ''1.1.1.1'', a_rec ''ns1.com.'' ''2.2.2.2'']
    | Query d s T_A \<Rightarrow> reply_packet [a_rec (d @ ''.'') ''1.2.3.4''] [] []
    | _ \<Rightarrow> Raises) (\<lambda>_. None)"

text \<open>A network where \<^verbatim>\<open>c\<close> is delegated (with glue) and nothing below it is: every other
  NS query is answered without records; an A query is answered with one address.\<close>

definition stop_net :: "packet net" where
  "stop_net = script_net (\<lambda>h. case last h of
      Query d s T_NS \<Rightarrow>
        (if d = ''c''
         then reply_packet [] [ns_rec ''c.'' ''ns.c.''] [a_rec ''ns.c.'' ''10.0.0.1'']
         else reply_packet [] [] [])
    | Query d s T_A \<Rightarrow> reply_packet [a_rec (d @ ''.'') ''1.2.3.4''] [] []
    | _ \<Rightarrow> Raises) (\<lambda>_. None)"

text \<open>The cache a round ends with.\<close>

fun step_cache :: "step \<Rightarrow> cache" where
  "step_cache (Next c h s) = c"
| "step_cache (Break c h) = c"
| "step_cache (ReturnNone c h) = c"
| "step_cache (Raise e c h) = c"

text \<open>A network that answers every NS query with no records at all and every A query
  with one address.\<close>

definition empty_ns_net :: "packet net" where
  "empty_ns_net = script_net (\<lambda>h. case last h of
      Query d s T_NS \<Rightarrow> reply_packet [] [] []
    | Query d s T_A \<Rightarrow> reply_packet [a_rec (d @ ''.'') ''1.2.3.4''] [] []
    | _ \<Rightarrow> Raises) (\<lambda>_. None)"

text \<open>A cache that holds glue for \<^verbatim>\<open>com\<close> but no name-server list (its \<^verbatim>\<open>NS\<close> item was
  removed).\<close>

definition stale_cache :: cache where
  "stale_cache = [(''com'', [B_NS_IP [(''old.com'', [''9.9.9.9''])]])]"


text \<open>The history a round ends with.\<close>

fun step_hist :: "step \<Rightarrow> event list" where
  "step_hist (Next c h s) = h"
| "step_hist (Break c h) = h"
| "step_hist (ReturnNone c h) = h"
| "step_hist (Raise e c h) = h"

text \<open>The cache and the history the loop over the suffixes ends with.\<close>

fun walked_cache :: "walked \<Rightarrow> cache" where
  "walked_cache (Walked c h s) = c"
| "walked_cache (Aborted c h) = c"
| "walked_cache (Crashed e c h) = c"

fun walked_hist :: "walked \<Rightarrow> event list" where
  "walked_hist (Walked c h s) = h"
| "walked_hist (Aborted c h) = h"
| "walked_hist (Crashed e c h) = h"

text \<open>No query among the events asks for a bucket the cache holds.\<close>

definition fresh_events :: "cache \<Rightarrow> event list \<Rightarrow> bool" where
  "fresh_events c evs \<longleftrightarrow>
     (\<forall>s srv. Query s srv T_NS \<in> set evs \<longrightarrow> cache_NS c s = None) \<and>
     (\<forall>q srv. Query q srv T_A \<in> set evs \<longrightarrow> cache_A c q = None)"

text \<open>Every \<^verbatim>\<open>NS\<close> and \<^verbatim>\<open>A\<close> bucket present in the first cache is present in the second.\<close>

definition cache_le :: "cache \<Rightarrow> cache \<Rightarrow> bool" where
  "cache_le c c' \<longleftrightarrow>
     (\<forall>s. cache_NS c s \<noteq> None \<longrightarrow> cache_NS c' s \<noteq> None) \<and>
     (\<forall>d. cache_A c d \<noteq> None \<longrightarrow> cache_A c' d \<noteq> None)"

text \<open>A network with one name server per zone: an NS query for a name is answered with
  a delegation to \<^verbatim>\<open>ns.\<close>name and its glue address, an A query with one address.\<close>

definition abc_ip :: "string \<Rightarrow> string" where
  "abc_ip d = (if d = ''c'' then ''10.0.0.1'' else if d = ''b.c'' then ''10.0.0.2'' else ''10.0.0.3'')"

definition abc_net :: "packet net" where
  "abc_net = script_net (\<lambda>h. case last h of
      Query d s T_NS \<Rightarrow>
        reply_packet [] [ns_rec (d @ ''.'') (''ns.'' @ d @ ''.'')]
          [a_rec (''ns.'' @ d @ ''.'') (abc_ip d)]
    | Query d s T_A \<Rightarrow> reply_packet [a_rec (d @ ''.'') ''1.2.3.4''] [] []
    | _ \<Rightarrow> Raises) (\<lambda>_. None)"

text \<open>The delegation of \<^verbatim>\<open>c\<close> cached, and the cache after resolving \<^verbatim>\<open>b.c\<close> from there.\<close>

definition c_cache :: cache where
  "c_cache = [(''c'', [B_NS [''ns.c''], B_NS_IP [(''ns.c'', [''10.0.0.1''])]])]"

definition bc_cache :: cache where
  "bc_cache = [(''c'', [B_NS [''ns.c''], B_NS_IP [(''ns.c'', [''10.0.0.1''])]]),
               (''b.c'', [B_NS [''ns.b.c''], B_NS_IP [(''ns.b.c'', [''10.0.0.2''])],
                          B_A [''1.2.3.4'']])]"

section \<open>Following aliases\<close>

text \<open>The name \<^verbatim>\<open>domain\<close> holds, with the cache and the history, after \<open>n\<close> rounds of the
  \<^verbatim>\<open>while\<close> loop that each ended with \<^verbatim>\<open>domain = cname; continue\<close>; \<open>None\<close> if one of
  them ended otherwise.\<close>

fun chase :: "'b net \<Rightarrow> nat \<Rightarrow> string \<Rightarrow> cache \<Rightarrow> event list \<Rightarrow> (string \<times> cache \<times> event list) option" where
  "chase net 0 domain cache h = Some (domain, cache, h)"
| "chase net (Suc n) domain cache h =
     (case cache_A cache domain of
        Some ips \<Rightarrow> None
      | None \<Rightarrow>
          (case walk net (suffixes_of domain) cache h ROOT_SERVER of
             Some (Walked cache1 h1 server) \<Rightarrow>
               (case get_dns_record net h1 domain server T_A of
                  Some (Some response, h2) \<Rightarrow>
                    (case find_cname (answers response) of
                       Some cname \<Rightarrow> chase net n cname cache1 h2
                     | None \<Rightarrow> None)
                | _ \<Rightarrow> None)
           | _ \<Rightarrow> None))"

text \<open>What a finished call has done to the \<^verbatim>\<open>A\<close> buckets: only the bucket of the name the
  loop ended with can differ from the start.\<close>

definition final_ok :: "'b net \<Rightarrow> string \<Rightarrow> cache \<Rightarrow> event list \<Rightarrow> result \<times> cache \<times> event list \<Rightarrow> bool" where
  "final_ok net d c h y \<longleftrightarrow>
     (\<exists>n f cf hf. chase net n d c h = Some (f, cf, hf) \<and>
        (\<forall>x. x \<noteq> f \<longrightarrow> cache_A (fst (snd y)) x = cache_A c x) \<and>
        (\<forall>ips. fst y = Ips ips \<longrightarrow> cache_A (fst (snd y)) f = Some ips))"

text \<open>Two name servers that disagree: the root answers A queries with an address, the
  server \<^verbatim>\<open>9.9.9.9\<close> (to which every name-server host name resolves) with an alias, \<^verbatim>\<open>a\<close> to
  \<^verbatim>\<open>b\<close> and \<^verbatim>\<open>b\<close> to \<^verbatim>\<open>a\<close>. Delegations come without glue.\<close>

definition cycle_reply :: "event list \<Rightarrow> packet received" where
  "cycle_reply h = (case last h of
      Query d s T_NS \<Rightarrow> reply_packet [] [ns_rec (d @ ''.'') (''ns.'' @ d @ ''.'')] []
    | Query d s T_A \<Rightarrow>
        (if s = ''9.9.9.9''
         then reply_packet [cname_rec (d @ ''.'') (if d = ''a'' then ''b.'' else ''a.'')] [] []
         else reply_packet [a_rec (d @ ''.'') ''5.6.7.8''] [] [])
    | _ \<Rightarrow> Raises)"

definition cycle_net :: "packet net" where
  "cycle_net = script_net cycle_reply (\<lambda>_. Some ''9.9.9.9'')"

text \<open>A network where \<^verbatim>\<open>www.example.com\<close> is an alias of \<^verbatim>\<open>example.com\<close>, which has the
  address \<^verbatim>\<open>5.6.7.8\<close>; every delegation comes with the glue address \<^verbatim>\<open>10.0.0.1\<close>.\<close>

definition alias_net :: "packet net" where
  "alias_net = script_net (\<lambda>h. case last h of
      Query d s T_NS \<Rightarrow>
        reply_packet [] [ns_rec (d @ ''.'') (''ns.'' @ d @ ''.'')]
          [a_rec (''ns.'' @ d @ ''.'') ''10.0.0.1'']
    | Query d s T_A \<Rightarrow>
        (if d = ''www.example.com''
         then reply_packet [cname_rec ''www.example.com.'' ''example.com.''] [] []
         else reply_packet [a_rec (d @ ''.'') ''5.6.7.8''] [] [])
    | _ \<Rightarrow> Raises) (\<lambda>_. None)"

text \<open>Caches and histories of the two example runs.\<close>

definition www_cache :: cache where
  "www_cache =
     [(''com'', [B_NS [''ns.com''], B_NS_IP [(''ns.com'', [''10.0.0.1''])]]),
      (''example.com'', [B_NS [''ns.example.com''], B_NS_IP [(''ns.example.com'', [''10.0.0.1''])]]),
      (''www.example.com'',
         [B_NS [''ns.www.example.com''], B_NS_IP [(''ns.www.example.com'', [''10.0.0.1''])]])]"

definition www_hist :: "event list" where
  "www_hist = [Query ''com'' ROOT_SERVER T_NS, Query ''example.com'' ''10.0.0.1'' T_NS,
               Query ''www.example.com'' ''10.0.0.1'' T_NS]"

definition www_final :: cache where
  "www_final =
     [(''com'', [B_NS [''ns.com''], B_NS_IP [(''ns.com'', [''10.0.0.1''])]]),
      (''example.com'', [B_NS [''ns.example.com''], B_NS_IP [(''ns.example.com'', [''10.0.0.1''])],
                         B_A [''5.6.7.8'']]),
      (''www.example.com'',
         [B_NS [''ns.www.example.com''], B_NS_IP [(''ns.www.example.com'', [''10.0.0.1''])]])]"

definition cycle_cache :: cache where
  "cycle_cache =
     [(''a'', [B_NS [''ns.a''], B_NS_IP [], B_A [''5.6.7.8'']]),
      (''b'', [B_NS [''ns.b''], B_NS_IP []])]"

definition cycle_hist :: "event list" where
  "cycle_hist =
     [Query ''a'' ROOT_SERVER T_NS, Lookup ''ns.a'', Query ''a'' ''9.9.9.9'' T_A,
      Query ''b'' ROOT_SERVER T_NS, Lookup ''ns.b'', Query ''b'' ''9.9.9.9'' T_A,
      Query ''a'' ROOT_SERVER T_A]"

section \<open>Well-formed packets\<close>

text \<open>What it means for the sections of a packet to parse, said without the loops of
  \<^verbatim>\<open>get_dns_record\<close>: a chain of buffers in which each buffer is what \<^verbatim>\<open>DNSQuestion.parse\<close>
  leaves of the one before it, and a chain in which \<^verbatim>\<open>RR.parse\<close> reads the given records,
  one between each buffer and the next.\<close>

fun question_run :: "'b net \<Rightarrow> 'b list \<Rightarrow> bool" where
  "question_run net (b # b' # bs) \<longleftrightarrow> parse_question net b = Some b' \<and> question_run net (b' # bs)"
| "question_run net _ \<longleftrightarrow> True"

fun record_run :: "'b net \<Rightarrow> 'b list \<Rightarrow> rr list \<Rightarrow> bool" where
  "record_run net (b # b' # bs) (r # rs) \<longleftrightarrow>
     parse_rr net b = Some (r, b') \<and> record_run net (b' # bs) rs"
| "record_run net [b] [] \<longleftrightarrow> True"
| "record_run net _ _ \<longleftrightarrow> False"

text \<open>A network whose packets have no question section that parses.\<close>

definition noquestion_net :: "packet net" where
  "noquestion_net = (script_net (\<lambda>_. bare_packet 7 0 0) (\<lambda>_. None))\<lparr>parse_question := \<lambda>_. None\<rparr>"

text \<open>The sections of a packet are well formed for a header when the announced number
  of questions parses, one after the other, and then the announced numbers of answer,
  authority and additional records, which are the records of the response. They are
  malformed when a parser raises before that: at a question after fewer questions than
  announced, or at a record after all the questions and fewer records than announced.\<close>

definition well_formed :: "'b net \<Rightarrow> header \<Rightarrow> 'b \<Rightarrow> response \<Rightarrow> bool" where
  "well_formed net hdr buff resp \<longleftrightarrow>
     (\<exists>qs bs. length qs = h_q hdr \<and> question_run net (buff # qs) \<and>
        record_run net (last (buff # qs) # bs)
          (answers resp @ authority resp @ additional resp) \<and>
        length (answers resp) = h_a hdr \<and> length (authority resp) = h_auth hdr \<and>
        length (additional resp) = h_ar hdr)"

definition malformed :: "'b net \<Rightarrow> header \<Rightarrow> 'b \<Rightarrow> bool" where
  "malformed net hdr buff \<longleftrightarrow>
     (\<exists>qs. length qs < h_q hdr \<and> question_run net (buff # qs) \<and>
        parse_question net (last (buff # qs)) = None) \<or>
     (\<exists>qs bs rs. length qs = h_q hdr \<and> question_run net (buff # qs) \<and>
        record_run net (last (buff # qs) # bs) rs \<and>
        length rs < h_a hdr + h_auth hdr + h_ar hdr \<and>
        parse_rr net (last (last (buff # qs) # bs)) = None)"

section \<open>Basic facts\<close>

lemma walk_rounds:
  "rounds net n (sufs, c, h, srv) = Some (sufs', c', h', srv') \<Longrightarrow>
   walk net sufs c h srv = walk net sufs' c' h' srv'"
proof (induction n arbitrary: sufs c h srv)
  case 0
  then show ?case by simp
next
  case (Suc n)
  then show ?case
    by (cases sufs) (auto split: option.splits step.splits)
qed

lemma rounds_Suc:
  "rounds net n st = Some (s # rest, c1, h1, srv1) \<Longrightarrow>
   loop_body net c1 h1 srv1 s = Some (Next c2 h2 srv2) \<Longrightarrow>
   rounds net (Suc n) st = Some (rest, c2, h2, srv2)"
proof (induction n arbitrary: st)
  case 0
  then show ?case by simp
next
  case (Suc n)
  obtain sufs c h srv where st: "st = (sufs, c, h, srv)" by (cases st) auto
  with Suc show ?case
    by (cases sufs) (auto split: option.splits step.splits)
qed

lemma first_glue_None: "first_glue nsl g = None \<longleftrightarrow> (\<forall>ns\<in>set nsl. map_of g ns = None)"
  by (induction nsl) (auto split: option.splits)

section \<open>Cache short-circuit\<close>

text \<open>
  Claim C2. If the cache entry of the domain has an \<^verbatim>\<open>A\<close> bucket, \<^verbatim>\<open>resolve\<close> returns
  exactly the cached list, makes no call to the outside (the history is the one it
  started with) and leaves the cache as it was.
\<close>

theorem resolve_cache_hit:
  "cache_A cache domain = Some ips \<Longrightarrow> resolve net domain cache h = Some (Ips ips, cache, h)"
  by (subst resolve.simps) simp

theorem resolve_cache_hit_witness:
  "cache_A [(''example.com'', [B_A [''1.2.3.4'']])] ''example.com'' = Some [''1.2.3.4''] \<and>
   resolve dead_net ''example.com'' [(''example.com'', [B_A [''1.2.3.4'']])] []
   = Some (Ips [''1.2.3.4''], [(''example.com'', [B_A [''1.2.3.4'']])], [])"
proof -
  have hit: "cache_A [(''example.com'', [B_A [''1.2.3.4'']])] ''example.com'' = Some [''1.2.3.4'']"
    by (simp add: cache_A_def cache_get_def cache_entry_def)
  show ?thesis
    using hit resolve_cache_hit [OF hit] by simp
qed

section \<open>Cached name servers without glue\<close>

text \<open>
  Claim C10. If the \<^verbatim>\<open>NS\<close> bucket of a suffix is cached and none of the names listed in
  it has an entry in the cached \<^verbatim>\<open>NS_IP\<close> mapping, the round for that suffix changes
  nothing: the loop goes on to the next suffix with the same server, the same cache and
  the same history (no call to the outside), and does not fail.
\<close>

theorem walk_cached_no_glue:
  assumes "cache_NS cache s = Some nsl"
    and "\<forall>ns\<in>set nsl. map_of (cache_NS_IP cache s) ns = None"
  shows "loop_body net cache h server s = Some (Next cache h server) \<and>
         walk net (s # rest) cache h server = walk net rest cache h server"
  using assms by (simp add: loop_body_def cached_step_def first_glue_None[THEN iffD2])

theorem walk_cached_no_glue_witness:
  "cache_NS [(''c'', [B_NS [''ns.c'']])] ''c'' = Some [''ns.c''] \<and>
   map_of (cache_NS_IP [(''c'', [B_NS [''ns.c'']])] ''c'') ''ns.c'' = None \<and>
   loop_body dead_net [(''c'', [B_NS [''ns.c'']])] [] ROOT_SERVER ''c''
     = Some (Next [(''c'', [B_NS [''ns.c'']])] [] ROOT_SERVER) \<and>
   walk dead_net [''c'', ''b.c''] [(''c'', [B_NS [''ns.c'']])] [] ROOT_SERVER
     = walk dead_net [''b.c''] [(''c'', [B_NS [''ns.c'']])] [] ROOT_SERVER"
proof -
  have a: "cache_NS [(''c'', [B_NS [''ns.c'']])] ''c'' = Some [''ns.c'']"
    by (simp add: cache_NS_def cache_get_def cache_entry_def)
  have b: "\<forall>ns\<in>set [''ns.c'']. map_of (cache_NS_IP [(''c'', [B_NS [''ns.c'']])] ''c'') ns = None"
    by (simp add: cache_NS_IP_def cache_get_def cache_entry_def)
  show ?thesis
    using a b walk_cached_no_glue [OF a b, of dead_net "[]" ROOT_SERVER "[''b.c'']"] by simp
qed

section \<open>Failure of an exchange\<close>

lemma get_dns_record_None_iff:
  "get_dns_record net h d s t = Some (None, h') \<longleftrightarrow>
     h' = h @ [Query d s t] \<and>
     (transport net h' = Raises \<or>
      (\<exists>qid pkt. transport net h' = Packet qid pkt \<and>
         (parse_header net pkt = None \<or>
          (\<exists>hdr buff. parse_header net pkt = Some (hdr, buff) \<and>
             (qid \<noteq> h_id hdr \<or> h_rcode hdr \<noteq> NOERROR \<or> parse_body net hdr buff = None)))))"
  by (auto simp: get_dns_record_def decode_def Let_def split: received.splits option.splits)

lemma resolve_ns_failure:
  assumes "cache_A c domain = None"
    and "rounds net n (suffixes_of domain, c, h0, ROOT_SERVER) = Some (s # rest, c1, h1, srv)"
    and "cache_NS c1 s = None"
    and "get_dns_record net h1 s srv T_NS = Some (None, h2)"
  shows "resolve net domain c h0 = Some (PyNone, c1, h2)"
proof -
  have "walk net (s # rest) c1 h1 srv = Some (Aborted c1 h2)"
    using assms(3,4) by (simp add: loop_body_def query_step_def)
  then have "walk net (suffixes_of domain) c h0 ROOT_SERVER = Some (Aborted c1 h2)"
    using walk_rounds [OF assms(2)] by simp
  then show ?thesis
    using assms(1) by (subst resolve.simps) simp
qed

lemma resolve_a_failure:
  assumes "cache_A c domain = None"
    and "walk net (suffixes_of domain) c h0 ROOT_SERVER = Some (Walked c1 h1 srv)"
    and "get_dns_record net h1 domain srv T_A = Some (None, h2)"
  shows "resolve net domain c h0 = Some (PyNone, c1, h2)"
  using assms by (subst resolve.simps) simp

lemmas eval_defs = get_dns_record_def decode_def parse_body_def script_net_def bare_packet_def
  reply_packet_def NOERROR_def cache_A_def cache_NS_def cache_get_def cache_entry_def
  suffixes_of_def loop_body_def cached_step_def cache_NS_IP_def

lemma skip_questions_Some:
  "skip_questions net n b = Some b' \<longleftrightarrow>
     (\<exists>qs. length qs = n \<and> question_run net (b # qs) \<and> last (b # qs) = b')"
proof (induction n arbitrary: b)
  case 0
  show ?case by auto
next
  case (Suc n)
  show ?case
  proof (cases "parse_question net b")
    case None
    have "\<not> (\<exists>qs. length qs = Suc n \<and> question_run net (b # qs) \<and> last (b # qs) = b')"
    proof
      assume "\<exists>qs. length qs = Suc n \<and> question_run net (b # qs) \<and> last (b # qs) = b'"
      then obtain qs where q: "length qs = Suc n" "question_run net (b # qs)" by (elim exE conjE)
      from q(1) obtain q1 qs' where "qs = q1 # qs'" by (cases qs) simp_all
      with q(2) None show False by simp
    qed
    with None show ?thesis by simp
  next
    case (Some b1)
    have "(\<exists>qs. length qs = Suc n \<and> question_run net (b # qs) \<and> last (b # qs) = b')
          \<longleftrightarrow> (\<exists>qs. length qs = n \<and> question_run net (b1 # qs) \<and> last (b1 # qs) = b')"
      (is "?L \<longleftrightarrow> ?R")
    proof
      assume ?L
      then obtain qs where q: "length qs = Suc n" "question_run net (b # qs)"
        "last (b # qs) = b'" by (elim exE conjE)
      from q(1) obtain q1 qs' where qs: "qs = q1 # qs'" by (cases qs) simp_all
      with q Some have "length qs' = n \<and> question_run net (b1 # qs') \<and> last (b1 # qs') = b'"
        by simp
      then show ?R by (rule exI)
    next
      assume ?R
      then obtain qs where q: "length qs = n" "question_run net (b1 # qs)"
        "last (b1 # qs) = b'" by (elim exE conjE)
      with Some have "length (b1 # qs) = Suc n \<and> question_run net (b # b1 # qs) \<and>
             last (b # b1 # qs) = b'" by simp
      then show ?L by (rule exI)
    qed
    with Some Suc [of b1] show ?thesis by simp
  qed
qed

lemma skip_questions_None:
  "skip_questions net n b = None \<longleftrightarrow>
     (\<exists>qs. length qs < n \<and> question_run net (b # qs) \<and> parse_question net (last (b # qs)) = None)"
proof (induction n arbitrary: b)
  case 0
  show ?case by simp
next
  case (Suc n)
  show ?case
  proof (cases "parse_question net b")
    case None
    have "length ([] :: 'a list) < Suc n \<and> question_run net (b # []) \<and>
          parse_question net (last (b # [])) = None"
      using None by simp
    then have "\<exists>qs. length qs < Suc n \<and> question_run net (b # qs) \<and>
          parse_question net (last (b # qs)) = None" by (rule exI)
    with None show ?thesis by simp
  next
    case (Some b1)
    have "(\<exists>qs. length qs < Suc n \<and> question_run net (b # qs) \<and>
             parse_question net (last (b # qs)) = None)
          \<longleftrightarrow> (\<exists>qs. length qs < n \<and> question_run net (b1 # qs) \<and>
             parse_question net (last (b1 # qs)) = None)" (is "?L \<longleftrightarrow> ?R")
    proof
      assume ?L
      then obtain qs where q: "length qs < Suc n" "question_run net (b # qs)"
        "parse_question net (last (b # qs)) = None" by (elim exE conjE)
      from q(3) Some obtain q1 qs' where qs: "qs = q1 # qs'" by (cases qs) simp_all
      with q Some have "length qs' < n \<and> question_run net (b1 # qs') \<and>
             parse_question net (last (b1 # qs')) = None" by simp
      then show ?R by (rule exI)
    next
      assume ?R
      then obtain qs where q: "length qs < n" "question_run net (b1 # qs)"
        "parse_question net (last (b1 # qs)) = None" by (elim exE conjE)
      with Some have "length (b1 # qs) < Suc n \<and> question_run net (b # b1 # qs) \<and>
             parse_question net (last (b # b1 # qs)) = None" by simp
      then show ?L by (rule exI)
    qed
    with Some Suc [of b1] show ?thesis by simp
  qed
qed


lemma record_run_Nil: "record_run net (b # bs) [] \<longleftrightarrow> bs = []"
  by (cases bs) simp_all

lemma record_run_Cons:
  "record_run net (b # bs) (r # rs) \<longleftrightarrow>
     (\<exists>b1 bs'. bs = b1 # bs' \<and> parse_rr net b = Some (r, b1) \<and> record_run net (b1 # bs') rs)"
  by (cases bs) simp_all

lemma parse_section_Some:
  "parse_section net n b = Some (rs, b') \<longleftrightarrow>
     length rs = n \<and> (\<exists>bs. record_run net (b # bs) rs \<and> last (b # bs) = b')"
proof (induction n arbitrary: b rs)
  case 0
  show ?case
  proof (cases rs)
    case Nil
    then show ?thesis by (simp add: record_run_Nil eq_commute)
  next
    case (Cons r rs1)
    then show ?thesis by simp
  qed
next
  case (Suc n)
  show ?case
  proof (cases "parse_rr net b")
    case None
    have "\<not> (length rs = Suc n \<and> (\<exists>bs. record_run net (b # bs) rs \<and> last (b # bs) = b'))"
    proof
      assume a: "length rs = Suc n \<and> (\<exists>bs. record_run net (b # bs) rs \<and> last (b # bs) = b')"
      then obtain r rs1 where "rs = r # rs1" by (cases rs) simp_all
      with a None show False by (simp add: record_run_Cons)
    qed
    with None show ?thesis by simp
  next
    case (Some p)
    obtain r b1 where p: "p = (r, b1)" by (cases p) simp
    note pr = Some [unfolded p]
    have lr: "(length rs = Suc n \<and> (\<exists>bs. record_run net (b # bs) rs \<and> last (b # bs) = b'))
          \<longleftrightarrow> (\<exists>rs1. rs = r # rs1 \<and> length rs1 = n \<and>
                 (\<exists>bs. record_run net (b1 # bs) rs1 \<and> last (b1 # bs) = b'))" (is "?L \<longleftrightarrow> ?R")
    proof
      assume l: ?L
      then have len: "length rs = Suc n" by (rule conjunct1)
      then obtain r' rs1 where rs: "rs = r' # rs1" by (cases rs) simp_all
      from l obtain bs where bs: "record_run net (b # bs) rs" "last (b # bs) = b'"
        by (elim exE conjE)
      from bs(1) [unfolded rs record_run_Cons] obtain b2 bs' where
        b2: "bs = b2 # bs'" "parse_rr net b = Some (r', b2)" "record_run net (b2 # bs') rs1"
        by (elim exE conjE)
      from b2(2) pr have e: "r' = r" "b2 = b1" by simp_all
      from bs(2) b2(1) e have la: "last (b1 # bs') = b'" by simp
      from b2(3) e have rr: "record_run net (b1 # bs') rs1" by simp
      from rr la have ex: "\<exists>bs. record_run net (b1 # bs) rs1 \<and> last (b1 # bs) = b'"
        by (intro exI [of _ bs'] conjI)
      from len rs have l1: "length rs1 = n" by simp
      from rs e have rs': "rs = r # rs1" by simp
      show ?R by (intro exI [of _ rs1] conjI rs' l1 ex)
    next
      assume ?R
      then obtain rs1 bs where r: "rs = r # rs1" "length rs1 = n"
        "record_run net (b1 # bs) rs1" "last (b1 # bs) = b'" by (elim exE conjE)
      then have "record_run net (b # b1 # bs) rs \<and> last (b # b1 # bs) = b'"
        using pr by simp
      then have "\<exists>bs. record_run net (b # bs) rs \<and> last (b # bs) = b'" by (rule exI)
      with r show ?L by simp
    qed
    have "parse_section net (Suc n) b = Some (rs, b')
          \<longleftrightarrow> (\<exists>rs1. rs = r # rs1 \<and> parse_section net n b1 = Some (rs1, b'))"
    proof (cases "parse_section net n b1")
      case None
      with pr show ?thesis by simp
    next
      case (Some q)
      obtain rs2 b2 where q: "q = (rs2, b2)" by (cases q) simp
      from Some [unfolded q] pr show ?thesis by auto
    qed
    also have "\<dots> \<longleftrightarrow> (\<exists>rs1. rs = r # rs1 \<and> length rs1 = n \<and>
                 (\<exists>bs. record_run net (b1 # bs) rs1 \<and> last (b1 # bs) = b'))"
      by (simp only: Suc [of b1])
    also have "\<dots> \<longleftrightarrow> (length rs = Suc n \<and>
                 (\<exists>bs. record_run net (b # bs) rs \<and> last (b # bs) = b'))"
      by (rule lr [symmetric])
    finally show ?thesis .
  qed
qed

lemma parse_section_None:
  "parse_section net n b = None \<longleftrightarrow>
     (\<exists>bs rs. length rs < n \<and> record_run net (b # bs) rs \<and> parse_rr net (last (b # bs)) = None)"
proof (induction n arbitrary: b)
  case 0
  show ?case by simp
next
  case (Suc n)
  show ?case
  proof (cases "parse_rr net b")
    case None
    have "length ([] :: rr list) < Suc n \<and> record_run net (b # []) [] \<and>
          parse_rr net (last (b # [])) = None"
      using None by simp
    then have "\<exists>bs rs. length rs < Suc n \<and> record_run net (b # bs) rs \<and>
          parse_rr net (last (b # bs)) = None" by blast
    with None show ?thesis by simp
  next
    case (Some p)
    obtain r b1 where p: "p = (r, b1)" by (cases p) simp
    note pr = Some [unfolded p]
    have "(\<exists>bs rs. length rs < Suc n \<and> record_run net (b # bs) rs \<and>
             parse_rr net (last (b # bs)) = None)
          \<longleftrightarrow> (\<exists>bs rs. length rs < n \<and> record_run net (b1 # bs) rs \<and>
             parse_rr net (last (b1 # bs)) = None)" (is "?L \<longleftrightarrow> ?R")
    proof
      assume ?L
      then obtain bs rs where q: "length rs < Suc n" "record_run net (b # bs) rs"
        "parse_rr net (last (b # bs)) = None" by (elim exE conjE)
      from q(3) pr obtain b2 bs' where bs: "bs = b2 # bs'" by (cases bs) simp_all
      from q(2) bs obtain r' rs1 where rs: "rs = r' # rs1" by (cases rs) simp_all
      from q(2) bs rs pr have b2: "b2 = b1" "record_run net (b1 # bs') rs1" by simp_all
      with q bs rs have "length rs1 < n \<and> record_run net (b1 # bs') rs1 \<and>
             parse_rr net (last (b1 # bs')) = None" by simp
      then show ?R by blast
    next
      assume ?R
      then obtain bs rs where q: "length rs < n" "record_run net (b1 # bs) rs"
        "parse_rr net (last (b1 # bs)) = None" by (elim exE conjE)
      with pr have "length (r # rs) < Suc n \<and> record_run net (b # b1 # bs) (r # rs) \<and>
             parse_rr net (last (b # b1 # bs)) = None" by simp
      then show ?L by blast
    qed
    moreover have "parse_section net (Suc n) b = None \<longleftrightarrow> parse_section net n b1 = None"
      using pr by (simp split: option.splits)
    ultimately show ?thesis using Suc [of b1] by simp
  qed
qed

lemma parse_section_add:
  "parse_section net (n + m) b =
     (case parse_section net n b of None \<Rightarrow> None
      | Some (rs, b1) \<Rightarrow>
          (case parse_section net m b1 of None \<Rightarrow> None
           | Some (rs', b2) \<Rightarrow> Some (rs @ rs', b2)))"
proof (induction n arbitrary: b)
  case 0
  show ?case by (simp split: option.splits)
next
  case (Suc n)
  show ?case
  proof (cases "parse_rr net b")
    case None
    then show ?thesis by simp
  next
    case (Some p)
    obtain r b1 where p: "p = (r, b1)" by (cases p) simp
    show ?thesis
      using Some [unfolded p] Suc [of b1] by (simp split: option.splits prod.splits)
  qed
qed

lemma parse_section_length: "parse_section net n b = Some (rs, b') \<Longrightarrow> length rs = n"
  by (simp add: parse_section_Some)


lemma parse_body_sections:
  "parse_body net hdr buff =
     (case skip_questions net (h_q hdr) buff of None \<Rightarrow> None
      | Some b1 \<Rightarrow>
          (case parse_section net (h_a hdr + h_auth hdr + h_ar hdr) b1 of None \<Rightarrow> None
           | Some (rs, b4) \<Rightarrow>
               Some \<lparr>answers = take (h_a hdr) rs,
                     authority = take (h_auth hdr) (drop (h_a hdr) rs),
                     additional = drop (h_a hdr + h_auth hdr) rs\<rparr>))"
proof (cases "skip_questions net (h_q hdr) buff")
  case None
  then show ?thesis by (simp add: parse_body_def)
next
  case (Some b1)
  note sq = Some
  have add: "parse_section net (h_a hdr + h_auth hdr + h_ar hdr) b1 =
     (case parse_section net (h_a hdr) b1 of None \<Rightarrow> None
      | Some (rs, b2) \<Rightarrow>
          (case parse_section net (h_auth hdr + h_ar hdr) b2 of None \<Rightarrow> None
           | Some (rs', b4) \<Rightarrow> Some (rs @ rs', b4)))"
    using parse_section_add [of net "h_a hdr" "h_auth hdr + h_ar hdr" b1]
    by (simp add: add.assoc)
  show ?thesis
  proof (cases "parse_section net (h_a hdr) b1")
    case None
    with sq add show ?thesis by (simp add: parse_body_def)
  next
    case (Some p)
    obtain ans b2 where p: "p = (ans, b2)" by (cases p) simp
    note pa = Some [unfolded p]
    from parse_section_length [OF pa] have la: "length ans = h_a hdr" .
    show ?thesis
    proof (cases "parse_section net (h_auth hdr) b2")
      case None
      with sq add pa show ?thesis by (simp add: parse_body_def parse_section_add)
    next
      case (Some q)
      obtain auth b3 where q: "q = (auth, b3)" by (cases q) simp
      note pb = Some [unfolded q]
      from parse_section_length [OF pb] have lb: "length auth = h_auth hdr" .
      show ?thesis
      proof (cases "parse_section net (h_ar hdr) b3")
        case None
        with sq add pa pb show ?thesis by (simp add: parse_body_def parse_section_add)
      next
        case (Some u)
        obtain addl b4 where u: "u = (addl, b4)" by (cases u) simp
        note pc = Some [unfolded u]
        have "parse_section net (h_a hdr + h_auth hdr + h_ar hdr) b1
                = Some (ans @ auth @ addl, b4)"
          using add pa pb pc by (simp add: parse_section_add)
        moreover have "parse_body net hdr buff
                = Some \<lparr>answers = ans, authority = auth, additional = addl\<rparr>"
          using sq pa pb pc by (simp add: parse_body_def)
        ultimately show ?thesis
          using sq la lb by simp
      qed
    qed
  qed
qed


lemma parse_body_Some:
  "parse_body net hdr buff = Some resp \<longleftrightarrow>
     (\<exists>qs bs. length qs = h_q hdr \<and> question_run net (buff # qs) \<and>
        record_run net (last (buff # qs) # bs)
          (answers resp @ authority resp @ additional resp) \<and>
        length (answers resp) = h_a hdr \<and> length (authority resp) = h_auth hdr \<and>
        length (additional resp) = h_ar hdr)" (is "?L \<longleftrightarrow> ?R")
proof
  assume l: ?L
  from l obtain b1 where sq: "skip_questions net (h_q hdr) buff = Some b1"
    by (cases "skip_questions net (h_q hdr) buff") (simp_all add: parse_body_sections)
  from l sq obtain rs b4 where
    ps: "parse_section net (h_a hdr + h_auth hdr + h_ar hdr) b1 = Some (rs, b4)"
    by (cases "parse_section net (h_a hdr + h_auth hdr + h_ar hdr) b1")
       (auto simp: parse_body_sections)
  from l sq ps have resp: "resp = \<lparr>answers = take (h_a hdr) rs,
      authority = take (h_auth hdr) (drop (h_a hdr) rs),
      additional = drop (h_a hdr + h_auth hdr) rs\<rparr>"
    by (simp add: parse_body_sections)
  from sq [unfolded skip_questions_Some] obtain qs where
    qs: "length qs = h_q hdr" "question_run net (buff # qs)" "last (buff # qs) = b1"
    by (elim exE conjE)
  from ps [unfolded parse_section_Some] obtain bs where
    len: "length rs = h_a hdr + h_auth hdr + h_ar hdr" and
    bs: "record_run net (b1 # bs) rs"
    by (elim exE conjE)
  have cat: "answers resp @ authority resp @ additional resp = rs"
  proof -
    have "take (h_auth hdr) (drop (h_a hdr) rs) @ drop (h_a hdr + h_auth hdr) rs
            = drop (h_a hdr) rs"
      using append_take_drop_id [of "h_auth hdr" "drop (h_a hdr) rs"]
      by (simp add: add.commute)
    then show ?thesis by (simp add: resp)
  qed
  have l1: "length (answers resp) = h_a hdr" using len by (simp add: resp)
  have l2: "length (authority resp) = h_auth hdr" using len by (simp add: resp)
  have l3: "length (additional resp) = h_ar hdr" using len by (simp add: resp)
  have rr: "record_run net (last (buff # qs) # bs)
          (answers resp @ authority resp @ additional resp)"
    using bs qs(3) cat by simp
  show ?R
    by (intro exI [of _ qs] exI [of _ bs] conjI qs(1) qs(2) rr l1 l2 l3)
next
  assume ?R
  then obtain qs bs where qs: "length qs = h_q hdr" "question_run net (buff # qs)"
    and rr: "record_run net (last (buff # qs) # bs)
          (answers resp @ authority resp @ additional resp)"
    and l1: "length (answers resp) = h_a hdr" and l2: "length (authority resp) = h_auth hdr"
    and l3: "length (additional resp) = h_ar hdr"
    by (elim exE conjE)
  let ?b1 = "last (buff # qs)"
  let ?rs = "answers resp @ authority resp @ additional resp"
  have "\<exists>qs'. length qs' = h_q hdr \<and> question_run net (buff # qs') \<and> last (buff # qs') = ?b1"
    by (intro exI [of _ qs] conjI qs refl)
  then have sq: "skip_questions net (h_q hdr) buff = Some ?b1"
    by (simp only: skip_questions_Some)
  have "length ?rs = h_a hdr + h_auth hdr + h_ar hdr \<and>
        (\<exists>bs'. record_run net (?b1 # bs') ?rs \<and> last (?b1 # bs') = last (?b1 # bs))"
    using l1 l2 l3 rr by (intro conjI exI [of _ bs]) simp_all
  then have ps: "parse_section net (h_a hdr + h_auth hdr + h_ar hdr) ?b1
                   = Some (?rs, last (?b1 # bs))"
    by (simp only: parse_section_Some)
  have "parse_body net hdr buff = Some \<lparr>answers = take (h_a hdr) ?rs,
      authority = take (h_auth hdr) (drop (h_a hdr) ?rs),
      additional = drop (h_a hdr + h_auth hdr) ?rs\<rparr>"
    by (simp only: parse_body_sections sq ps option.case prod.case)
  also have "\<lparr>answers = take (h_a hdr) ?rs,
      authority = take (h_auth hdr) (drop (h_a hdr) ?rs),
      additional = drop (h_a hdr + h_auth hdr) ?rs\<rparr> = resp"
    using l1 l2 l3 by simp
  finally show ?L .
qed

lemma parse_body_None:
  "parse_body net hdr buff = None \<longleftrightarrow>
     (\<exists>qs. length qs < h_q hdr \<and> question_run net (buff # qs) \<and>
        parse_question net (last (buff # qs)) = None) \<or>
     (\<exists>qs bs rs. length qs = h_q hdr \<and> question_run net (buff # qs) \<and>
        record_run net (last (buff # qs) # bs) rs \<and>
        length rs < h_a hdr + h_auth hdr + h_ar hdr \<and>
        parse_rr net (last (last (buff # qs) # bs)) = None)" (is "?L \<longleftrightarrow> ?Q \<or> ?R")
proof (cases "skip_questions net (h_q hdr) buff")
  case None
  then have l: ?L by (simp add: parse_body_sections)
  from None have q: ?Q by (simp only: skip_questions_None)
  from l q show ?thesis by (intro iffI disjI1)
next
  case (Some b1)
  let ?n = "h_a hdr + h_auth hdr + h_ar hdr"
  from Some [unfolded skip_questions_Some] obtain qs where
    qs: "length qs = h_q hdr" "question_run net (buff # qs)" "last (buff # qs) = b1"
    by (elim exE conjE)
  have nq: "\<not> ?Q"
    using Some skip_questions_None [of net "h_q hdr" buff] by simp
  have l: "?L \<longleftrightarrow> parse_section net ?n b1 = None"
    using Some by (simp add: parse_body_sections split: option.splits)
  have m: "parse_section net ?n b1 = None \<longleftrightarrow> ?R"
  proof
    assume "parse_section net ?n b1 = None"
    from this [unfolded parse_section_None] obtain bs rs where
      r: "length rs < ?n" "record_run net (b1 # bs) rs" "parse_rr net (last (b1 # bs)) = None"
      by (elim exE conjE)
    from r qs(3) have r2: "record_run net (last (buff # qs) # bs) rs"
      and r3: "parse_rr net (last (last (buff # qs) # bs)) = None" by simp_all
    show ?R
      by (intro exI [of _ qs] exI [of _ bs] exI [of _ rs] conjI qs(1) qs(2) r2 r(1) r3)
  next
    assume ?R
    then obtain qs' bs rs where q': "length qs' = h_q hdr" "question_run net (buff # qs')"
      and r: "record_run net (last (buff # qs') # bs) rs" "length rs < ?n"
        "parse_rr net (last (last (buff # qs') # bs)) = None"
      by (elim exE conjE)
    have "\<exists>qs. length qs = h_q hdr \<and> question_run net (buff # qs) \<and>
            last (buff # qs) = last (buff # qs')"
      by (intro exI [of _ qs'] conjI q' refl)
    then have "skip_questions net (h_q hdr) buff = Some (last (buff # qs'))"
      by (simp only: skip_questions_Some)
    with Some have e: "last (buff # qs') = b1" by simp
    note r' = r [unfolded e]
    have "\<exists>bs rs. length rs < ?n \<and> record_run net (b1 # bs) rs \<and>
            parse_rr net (last (b1 # bs)) = None"
      by (rule exI [of _ bs], rule exI [of _ rs]) (intro conjI r'(2) r'(1) r'(3))
    then show "parse_section net ?n b1 = None"
      by (simp only: parse_section_None)
  qed
  show ?thesis
  proof
    assume a: ?L
    from l a have "parse_section net ?n b1 = None" by (rule iffD1)
    with m have ?R by (rule iffD1)
    then show "?Q \<or> ?R" by (rule disjI2)
  next
    assume "?Q \<or> ?R"
    then have ?R
    proof
      assume ?Q
      with nq show ?R by (rule notE)
    qed
    with m have "parse_section net ?n b1 = None" by (rule iffD2)
    with l show ?L by (rule iffD2)
  qed
qed


lemma get_dns_record_Some_iff:
  "get_dns_record net h d s t = Some (Some resp, h') \<longleftrightarrow>
     h' = h @ [Query d s t] \<and>
     (\<exists>qid pkt hdr buff. transport net h' = Packet qid pkt \<and>
        parse_header net pkt = Some (hdr, buff) \<and>
        h_id hdr = qid \<and> h_rcode hdr = NOERROR \<and> parse_body net hdr buff = Some resp)"
  by (auto simp: get_dns_record_def decode_def Let_def split: received.splits option.splits)

lemma get_dns_record_decodes:
  "get_dns_record net h d s t = Some (Some resp, h') \<longleftrightarrow>
     h' = h @ [Query d s t] \<and>
     (\<exists>qid pkt hdr buff. transport net h' = Packet qid pkt \<and>
        parse_header net pkt = Some (hdr, buff) \<and>
        h_id hdr = qid \<and> h_rcode hdr = NOERROR \<and> well_formed net hdr buff resp)"
  unfolding well_formed_def parse_body_Some [symmetric]
  by (rule get_dns_record_Some_iff)

lemma get_dns_record_fails:
  "get_dns_record net h d s t = Some (None, h') \<longleftrightarrow>
     h' = h @ [Query d s t] \<and>
     (transport net h' = Raises \<or>
      (\<exists>qid pkt. transport net h' = Packet qid pkt \<and>
         (parse_header net pkt = None \<or>
          (\<exists>hdr buff. parse_header net pkt = Some (hdr, buff) \<and>
             (qid \<noteq> h_id hdr \<or> h_rcode hdr \<noteq> NOERROR \<or> malformed net hdr buff)))))"
  unfolding malformed_def parse_body_None [symmetric]
  by (rule get_dns_record_None_iff)

lemma get_dns_record_blocks:
  "get_dns_record net h d s t = None \<longleftrightarrow> transport net (h @ [Query d s t]) = Blocks"
  by (simp add: get_dns_record_def Let_def split: received.splits)


text \<open>
  Claim C6. A call of \<^verbatim>\<open>get_dns_record\<close> fails to return only when the receive blocks.
  It returns a response exactly when a packet arrives whose header parses, carries the
  transaction id of the question and the response code \<^verbatim>\<open>NOERROR\<close>, and whose sections are
  well formed; the response holds the records read. It returns \<^verbatim>\<open>None\<close> exactly when
  building, sending or receiving raised, or parsing the header raised, or the transaction
  id of the response is not the one of the question, or the response code is not
  \<^verbatim>\<open>NOERROR\<close>, or the sections are malformed; the value is the same \<^verbatim>\<open>None\<close> in each case.
  When the NS query of any round of the walk, or the A query after the walk, gives
  \<^verbatim>\<open>None\<close>, \<^verbatim>\<open>resolve\<close> returns \<^verbatim>\<open>None\<close> at once: the history ends with that one query
  (nothing is sent again or elsewhere) and the cache is the one the query found.
\<close>

theorem codec_failure_is_fatal:
  "(get_dns_record net h d s t = None \<longleftrightarrow> transport net (h @ [Query d s t]) = Blocks)
   \<and> (get_dns_record net h d s t = Some (Some resp, h') \<longleftrightarrow>
        h' = h @ [Query d s t] \<and>
        (\<exists>qid pkt hdr buff. transport net h' = Packet qid pkt \<and>
           parse_header net pkt = Some (hdr, buff) \<and>
           h_id hdr = qid \<and> h_rcode hdr = NOERROR \<and> well_formed net hdr buff resp))
   \<and> (get_dns_record net h d s t = Some (None, h') \<longleftrightarrow>
        h' = h @ [Query d s t] \<and>
        (transport net h' = Raises \<or>
         (\<exists>qid pkt. transport net h' = Packet qid pkt \<and>
            (parse_header net pkt = None \<or>
             (\<exists>hdr buff. parse_header net pkt = Some (hdr, buff) \<and>
                (qid \<noteq> h_id hdr \<or> h_rcode hdr \<noteq> NOERROR \<or> malformed net hdr buff))))))
   \<and> (cache_A c domain = None \<longrightarrow>
        rounds net n (suffixes_of domain, c, h0, ROOT_SERVER) = Some (sfx # rest, c1, h1, srv) \<longrightarrow>
        cache_NS c1 sfx = None \<longrightarrow>
        get_dns_record net h1 sfx srv T_NS = Some (None, h2) \<longrightarrow>
        resolve net domain c h0 = Some (PyNone, c1, h2))
   \<and> (cache_A c' domain' = None \<longrightarrow>
        walk net (suffixes_of domain') c' h0' ROOT_SERVER = Some (Walked c1' h1' srv') \<longrightarrow>
        get_dns_record net h1' domain' srv' T_A = Some (None, h2') \<longrightarrow>
        resolve net domain' c' h0' = Some (PyNone, c1', h2'))"
  (is "?A \<and> ?B \<and> ?C \<and> ?D \<and> ?E")
proof (intro conjI)
  show ?A by (rule get_dns_record_blocks)
  show ?B by (rule get_dns_record_decodes)
  show ?C by (rule get_dns_record_fails)
  show ?D by (intro impI) (rule resolve_ns_failure)
  show ?E by (intro impI) (rule resolve_a_failure)
qed

theorem codec_failure_is_fatal_witness:
  "get_dns_record glue_net [] ''com'' ROOT_SERVER T_NS
     = Some (Some glue_resp, [Query ''com'' ROOT_SERVER T_NS]) \<and>
   get_dns_record noquestion_net [] ''com'' ROOT_SERVER T_NS
     = Some (None, [Query ''com'' ROOT_SERVER T_NS]) \<and>
   get_dns_record short_net [] ''com'' ROOT_SERVER T_NS
     = Some (None, [Query ''com'' ROOT_SERVER T_NS]) \<and>
   resolve badid_net ''com'' [] [] = Some (PyNone, [], [Query ''com'' ROOT_SERVER T_NS]) \<and>
   resolve rcode_net ''com'' [(''com'', [B_NS [''ns.com'']])] []
     = Some (PyNone, [(''com'', [B_NS [''ns.com'']])], [Query ''com'' ROOT_SERVER T_A])"
proof -
  let ?q = "[Query ''com'' ROOT_SERVER T_NS]"
  let ?r1 = "ns_rec ''com.'' ''ns1.com.''"
  let ?r2 = "ns_rec ''com.'' ''ns2.com.''"
  let ?r3 = "a_rec ''ns2.com.'' ''10.0.0.2''"
  let ?hdr = "\<lparr>h_id = 7, h_rcode = 0, h_q = 1, h_a = 0, h_auth = 2, h_ar = 1\<rparr>"
  let ?pkt = "(?hdr, [?r1, ?r2, ?r3])"
  have wf: "well_formed glue_net ?hdr ?pkt glue_resp"
    unfolding well_formed_def
    by (rule exI [of _ "[?pkt]"], rule exI [of _ "[(?hdr, [?r2, ?r3]), (?hdr, [?r3]), (?hdr, [])]"])
       (simp add: glue_net_def script_net_def glue_resp_def)
  have tr: "transport glue_net ([] @ ?q) = Packet 7 ?pkt"
    by (simp add: glue_net_def script_net_def reply_packet_def)
  have ph: "parse_header glue_net ?pkt = Some (?hdr, ?pkt)"
    by (simp add: glue_net_def script_net_def)
  have "?q = [] @ ?q \<and>
        (\<exists>qid pkt hdr buff. transport glue_net ?q = Packet qid pkt \<and>
           parse_header glue_net pkt = Some (hdr, buff) \<and>
           h_id hdr = qid \<and> h_rcode hdr = NOERROR \<and> well_formed glue_net hdr buff glue_resp)"
    using tr ph wf
    by (intro conjI exI [of _ 7] exI [of _ ?pkt] exI [of _ ?hdr]) (simp_all add: NOERROR_def)
  then have a: "get_dns_record glue_net [] ''com'' ROOT_SERVER T_NS = Some (Some glue_resp, ?q)"
    using codec_failure_is_fatal [where net = glue_net and h = "[]" and d = "''com''"
        and s = ROOT_SERVER and t = T_NS and resp = glue_resp and h' = ?q,
        THEN conjunct2, THEN conjunct1]
    by simp
  let ?bare = "\<lparr>h_id = 7, h_rcode = 0, h_q = 1, h_a = 0, h_auth = 0, h_ar = 0\<rparr>"
  have mq: "malformed noquestion_net ?bare (?bare, [])"
    unfolding malformed_def
    by (rule disjI1, rule exI [of _ "[]"]) (simp add: noquestion_net_def script_net_def)
  have "?q = [] @ ?q \<and>
        (transport noquestion_net ?q = Raises \<or>
         (\<exists>qid pkt. transport noquestion_net ?q = Packet qid pkt \<and>
            (parse_header noquestion_net pkt = None \<or>
             (\<exists>hdr buff. parse_header noquestion_net pkt = Some (hdr, buff) \<and>
                (qid \<noteq> h_id hdr \<or> h_rcode hdr \<noteq> NOERROR \<or>
                 malformed noquestion_net hdr buff)))))"
    using mq
    by (intro conjI disjI2 exI [of _ 7] exI [of _ "(?bare, [])"] exI [of _ ?bare])
       (simp_all add: noquestion_net_def script_net_def bare_packet_def)
  then have b: "get_dns_record noquestion_net [] ''com'' ROOT_SERVER T_NS = Some (None, ?q)"
    using codec_failure_is_fatal [where net = noquestion_net and h = "[]" and d = "''com''"
        and s = ROOT_SERVER and t = T_NS and h' = ?q,
        THEN conjunct2, THEN conjunct2, THEN conjunct1]
    by simp
  let ?short = "\<lparr>h_id = 7, h_rcode = 0, h_q = 1, h_a = 1, h_auth = 0, h_ar = 0\<rparr>"
  have ms: "malformed short_net ?short (?short, [])"
    unfolding malformed_def
    by (rule disjI2, rule exI [of _ "[(?short, [])]"], rule exI [of _ "[]"], rule exI [of _ "[]"])
       (simp add: short_net_def script_net_def)
  have "?q = [] @ ?q \<and>
        (transport short_net ?q = Raises \<or>
         (\<exists>qid pkt. transport short_net ?q = Packet qid pkt \<and>
            (parse_header short_net pkt = None \<or>
             (\<exists>hdr buff. parse_header short_net pkt = Some (hdr, buff) \<and>
                (qid \<noteq> h_id hdr \<or> h_rcode hdr \<noteq> NOERROR \<or>
                 malformed short_net hdr buff)))))"
    using ms
    by (intro conjI disjI2 exI [of _ 7] exI [of _ "(?short, [])"] exI [of _ ?short])
       (simp_all add: short_net_def script_net_def bare_packet_def)
  then have c: "get_dns_record short_net [] ''com'' ROOT_SERVER T_NS = Some (None, ?q)"
    using codec_failure_is_fatal [where net = short_net and h = "[]" and d = "''com''"
        and s = ROOT_SERVER and t = T_NS and h' = ?q,
        THEN conjunct2, THEN conjunct2, THEN conjunct1]
    by simp
  have d: "resolve badid_net ''com'' [] [] = Some (PyNone, [], [Query ''com'' ROOT_SERVER T_NS])"
    using codec_failure_is_fatal [where net = badid_net and c = "[]" and domain = "''com''"
        and n = 0 and ?h0.0 = "[]" and sfx = "''com''" and rest = "[]" and ?c1.0 = "[]"
        and ?h1.0 = "[]" and srv = ROOT_SERVER and ?h2.0 = "[Query ''com'' ROOT_SERVER T_NS]",
        THEN conjunct2, THEN conjunct2, THEN conjunct2, THEN conjunct1]
    by (simp add: eval_defs badid_net_def)
  have e: "resolve rcode_net ''com'' [(''com'', [B_NS [''ns.com'']])] []
     = Some (PyNone, [(''com'', [B_NS [''ns.com'']])], [Query ''com'' ROOT_SERVER T_A])"
    using codec_failure_is_fatal [where net = rcode_net and c' = "[(''com'', [B_NS [''ns.com'']])]"
        and domain' = "''com''" and ?h0' = "[]" and ?c1' = "[(''com'', [B_NS [''ns.com'']])]"
        and ?h1' = "[]" and srv' = ROOT_SERVER and ?h2' = "[Query ''com'' ROOT_SERVER T_A]",
        THEN conjunct2, THEN conjunct2, THEN conjunct2, THEN conjunct2]
    by (simp add: eval_defs rcode_net_def)
  show ?thesis
    by (intro conjI a b c d e)
qed

section \<open>Removing a cache item by its number\<close>

lemma map_of_dict_set: "map_of (dict_set k v c) = (map_of c)(k \<mapsto> v)"
  by (induction c) (auto simp: fun_eq_iff)

lemma map_of_dict_del: "distinct (map fst c) \<Longrightarrow> map_of (dict_del k c) = (map_of c)(k := None)"
proof (induction c)
  case Nil
  then show ?case by simp
next
  case (Cons p c)
  then show ?case
    by (cases p) (auto simp: fun_eq_iff map_of_eq_None_iff)
qed

lemma entry_get_set: "entry_get (entry_set b e) k = (if k = key_of b then Some b else entry_get e k)"
  by (induction e) auto

lemma entry_get_None_iff: "entry_get e k = None \<longleftrightarrow> k \<notin> key_of ` set e"
  by (induction e) auto

lemma entry_get_del:
  "distinct (map key_of e) \<Longrightarrow> entry_get (entry_del k e) k' = (if k' = k then None else entry_get e k')"
  by (induction e) (auto simp: entry_get_None_iff)

lemma entry_del_nth:
  "distinct (map key_of e) \<Longrightarrow> j < length e \<Longrightarrow> entry_del (key_of (e ! j)) e = take j e @ drop (Suc j) e"
proof (induction e arbitrary: j)
  case Nil
  then show ?case by simp
next
  case (Cons x e)
  show ?case
  proof (cases j)
    case 0
    then show ?thesis by simp
  next
    case (Suc j')
    with Cons.prems have "key_of x \<noteq> key_of (e ! j')" by auto
    with Cons Suc show ?thesis by simp
  qed
qed

lemma distinct_entry_del: "distinct (map key_of e) \<Longrightarrow> distinct (map key_of (entry_del k e))"
  by (induction e) (auto simp: entry_get_None_iff[symmetric] entry_get_del)

lemma cache_items_append: "cache_items (a @ b) = cache_items a @ cache_items b"
  by (simp add: cache_items_def)

lemma cache_items_Cons: "cache_items ((d, e) # c) = map (\<lambda>b. (d, key_of b)) e @ cache_items c"
  by (simp add: cache_items_def)

lemma cache_items_fst: "(d, k) \<in> set (cache_items c) \<Longrightarrow> d \<in> fst ` set c"
  by (induction c) (auto simp: cache_items_def)

lemma dict_set_mid: "d \<notin> fst ` set c1 \<Longrightarrow> dict_set d v (c1 @ (d, e) # c2) = c1 @ (d, v) # c2"
  by (induction c1) auto

lemma dict_del_mid: "d \<notin> fst ` set c1 \<Longrightarrow> dict_del d (c1 @ (d, e) # c2) = c1 @ c2"
  by (induction c1) auto

lemma nth_middle:
  assumes "i < length (A @ B @ C)" and "(A @ B @ C) ! i = (d, k)"
    and "\<forall>p\<in>set A \<union> set C. fst p \<noteq> d"
  shows "length A \<le> i \<and> i < length A + length B"
proof -
  have "\<not> i < length A"
  proof
    assume "i < length A"
    then have "(A @ B @ C) ! i \<in> set A" by (simp add: nth_append)
    with assms(2) have "(d, k) \<in> set A" by simp
    with assms(3) show False by force
  qed
  moreover have "\<not> length A + length B \<le> i"
  proof
    assume *: "length A + length B \<le> i"
    then have "\<not> i < length A" "\<not> i - length A < length B" by auto
    then have "(A @ B @ C) ! i = C ! (i - length A - length B)"
      by (simp only: nth_append if_False)
    moreover from * assms(1) have "i - length A - length B < length C" by simp
    ultimately have "(A @ B @ C) ! i \<in> set C" by simp
    with assms(2) have "(d, k) \<in> set C" by simp
    with assms(3) show False by force
  qed
  ultimately show ?thesis by simp
qed

lemma locate_item:
  assumes "distinct (map fst c)" and "i < length (cache_items c)" and "cache_items c ! i = (d, k)"
  shows "\<exists>c1 e c2 j. c = c1 @ (d, e) # c2 \<and> d \<notin> fst ` set c1 \<and> d \<notin> fst ` set c2 \<and>
           j < length e \<and> key_of (e ! j) = k \<and> i = length (cache_items c1) + j"
proof -
  from assms(2,3) have "(d, k) \<in> set (cache_items c)" by (metis nth_mem)
  then have "d \<in> fst ` set c" by (rule cache_items_fst)
  then obtain e where "(d, e) \<in> set c" by auto
  then obtain c1 c2 where c: "c = c1 @ (d, e) # c2" by (auto dest: split_list)
  with assms(1) have d1: "d \<notin> fst ` set c1" and d2: "d \<notin> fst ` set c2" by auto
  let ?B = "map (\<lambda>b. (d, key_of b)) e"
  have it: "cache_items c = cache_items c1 @ ?B @ cache_items c2"
    by (simp add: c cache_items_append cache_items_Cons)
  have "\<forall>p\<in>set (cache_items c1) \<union> set (cache_items c2). fst p \<noteq> d"
    using d1 d2 cache_items_fst by fastforce
  with assms(2,3) it have "length (cache_items c1) \<le> i \<and> i < length (cache_items c1) + length ?B"
    using nth_middle [of i "cache_items c1" ?B "cache_items c2" d k] by simp
  then obtain j where j: "i = length (cache_items c1) + j" "j < length e"
    by (metis le_Suc_ex length_map nat_add_left_cancel_less)
  with it assms(3) have "?B ! j = (d, k)" by (simp add: nth_append)
  with j have "key_of (e ! j) = k" by simp
  with c d1 d2 j show ?thesis by blast
qed


lemma remove_at:
  assumes wf: "wf_cache c" and i: "i < length (cache_items c)" and it: "cache_items c ! i = (d, k)"
  defines "c' \<equiv> fst (remove_cache_N c (int i + 1))"
  shows "remove_cache_N c (int i + 1) = (c', Removed_cache_entry (int i + 1) d k)"
    and "cache_items c' = take i (cache_items c) @ drop (Suc i) (cache_items c)"
    and "\<And>d'. d' \<noteq> d \<Longrightarrow> map_of c' d' = map_of c d'"
    and "\<And>d' k'. (d', k') \<noteq> (d, k) \<Longrightarrow> cache_get c' d' k' = cache_get c d' k'"
    and "cache_get c' d k = None"
    and "(\<And>k'. k' \<noteq> k \<Longrightarrow> cache_get c d k' = None) \<Longrightarrow> map_of c' d = None"
    and "wf_cache c'"
proof -
  from wf have dc: "distinct (map fst c)" by (simp add: wf_cache_def)
  from locate_item [OF dc i it] obtain c1 e c2 j where
    c: "c = c1 @ (d, e) # c2" and d1: "d \<notin> fst ` set c1" and d2: "d \<notin> fst ` set c2"
    and j: "j < length e" and kj: "key_of (e ! j) = k" and ij: "i = length (cache_items c1) + j"
    by blast
  from d1 have m1: "map_of c1 d = None" by (simp add: map_of_eq_None_iff)
  have ce: "cache_entry c d = e"
    by (simp add: cache_entry_def c map_of_append map_add_def m1)
  from wf c have de: "distinct (map key_of e)" by (simp add: wf_cache_def)
  from j kj have eg: "entry_get e k \<noteq> None" by (auto simp: entry_get_None_iff)
  define e' where "e' = take j e @ drop (Suc j) e"
  from de j kj have ed: "entry_del k e = e'"
    unfolding e'_def using entry_del_nth by blast
  have c'1: "c' = (if e' = [] then dict_del d c else dict_set d e' c)"
    using i it eg by (simp add: c'_def remove_cache_N_def Let_def ce ed)
  show "remove_cache_N c (int i + 1) = (c', Removed_cache_entry (int i + 1) d k)"
    using i it by (simp add: c'_def remove_cache_N_def Let_def)
  have c'2: "c' = (if e' = [] then c1 @ c2 else c1 @ (d, e') # c2)"
    unfolding c'1 c using d1 by (simp add: dict_set_mid dict_del_mid)
  let ?f = "\<lambda>b. (d, key_of b)"
  have "cache_items c' = cache_items c1 @ map ?f e' @ cache_items c2"
    by (auto simp: c'2 cache_items_append cache_items_Cons)
  also have "map ?f e' = take j (map ?f e) @ drop (Suc j) (map ?f e)"
    by (simp add: e'_def take_map drop_map)
  also have "cache_items c1 @ (take j (map ?f e) @ drop (Suc j) (map ?f e)) @ cache_items c2
      = take i (cache_items c) @ drop (Suc i) (cache_items c)"
    using j by (simp add: c ij cache_items_append cache_items_Cons)
  finally show "cache_items c' = take i (cache_items c) @ drop (Suc i) (cache_items c)" .
  have mo: "map_of c' = (map_of c)(d := if e' = [] then None else Some e')"
    by (simp add: c'1 map_of_dict_set map_of_dict_del dc)
  show "map_of c' d' = map_of c d'" if "d' \<noteq> d" for d'
    using that by (simp add: mo)
  have ce': "cache_entry c' d = e'"
    by (simp add: cache_entry_def mo)
  have cg: "cache_get c' d k' = (if k' = k then None else cache_get c d k')" for k'
    by (simp add: cache_get_def ce ce' ed [symmetric] entry_get_del de)
  show "cache_get c' d' k' = cache_get c d' k'" if "(d', k') \<noteq> (d, k)" for d' k'
  proof (cases "d' = d")
    case True
    with that show ?thesis by (simp add: cg)
  next
    case False
    then show ?thesis by (simp add: cache_get_def cache_entry_def mo)
  qed
  show "cache_get c' d k = None" by (simp add: cg)
  show "map_of c' d = None" if "\<And>k'. k' \<noteq> k \<Longrightarrow> cache_get c d k' = None"
  proof -
    have "e' = []"
    proof (rule ccontr)
      assume "e' \<noteq> []"
      then obtain b where b: "b \<in> set e'" by (cases e') auto
      then have "entry_get e' (key_of b) \<noteq> None" by (auto simp: entry_get_None_iff)
      then have "key_of b \<noteq> k" "entry_get e (key_of b) \<noteq> None"
        using entry_get_del [OF de, of k "key_of b"] by (auto simp: ed split: if_splits)
      with that [of "key_of b"] show False by (simp add: cache_get_def ce)
    qed
    then show ?thesis by (simp add: mo)
  qed
  have "distinct (map key_of e')"
    using distinct_entry_del [OF de, of k] by (simp add: ed)
  with wf show "wf_cache c'"
    by (auto simp: c'2 c wf_cache_def)
qed


text \<open>
  Claim C9. The items of the cache are numbered from 1 in the order \<^verbatim>\<open>list_cache\<close>
  gives them (domains in insertion order, buckets in insertion order within a domain).
  With \<open>N\<close> between 1 and the number of items, \<^verbatim>\<open>remove_cache_N\<close> removes exactly the
  \<open>N\<close>-th item: the list of items is the old one without its \<open>N\<close>-th element, every other
  bucket and every other domain's entry is as before, the removed bucket is gone, and
  the domain's entry is erased when that was its last bucket. With \<open>N\<close> outside that
  range the cache is unchanged and the invalid number is reported.
\<close>

theorem remove_cache_N_index:
  assumes "wf_cache c"
  shows "list_cache c = cache_items c \<and>
    (1 \<le> N \<and> N \<le> int (length (cache_items c)) \<longrightarrow>
      (\<exists>d k c'. cache_items c ! nat (N - 1) = (d, k) \<and>
         remove_cache_N c N = (c', Removed_cache_entry N d k) \<and>
         cache_items c' = take (nat (N - 1)) (cache_items c) @ drop (nat N) (cache_items c) \<and>
         (\<forall>d' k'. (d', k') \<noteq> (d, k) \<longrightarrow> cache_get c' d' k' = cache_get c d' k') \<and>
         (\<forall>d'. d' \<noteq> d \<longrightarrow> map_of c' d' = map_of c d') \<and>
         cache_get c' d k = None \<and>
         ((\<forall>k'. k' \<noteq> k \<longrightarrow> cache_get c d k' = None) \<longrightarrow> map_of c' d = None) \<and>
         wf_cache c')) \<and>
    (N < 1 \<or> int (length (cache_items c)) < N \<longrightarrow>
       remove_cache_N c N = (c, Invalid_entry_number N))"
proof (intro conjI impI)
  show "list_cache c = cache_items c"
    by (cases c) (simp_all add: list_cache_def cache_items_def)
next
  assume N: "1 \<le> N \<and> N \<le> int (length (cache_items c))"
  define i where "i = nat (N - 1)"
  from N have i: "i < length (cache_items c)" unfolding i_def by linarith
  from N have Ni: "int i + 1 = N" unfolding i_def by linarith
  from N have Si: "Suc i = nat N" unfolding i_def by linarith
  obtain d k where it: "cache_items c ! i = (d, k)" by (cases "cache_items c ! i") blast
  define c' where "c' = fst (remove_cache_N c N)"
  note r = remove_at [OF assms i it, unfolded Ni Si, folded c'_def]
  have f1: "cache_items c ! nat (N - 1) = (d, k)"
    using it unfolding i_def .
  have f3: "cache_items c' = take (nat (N - 1)) (cache_items c) @ drop (nat N) (cache_items c)"
    using r(2) unfolding i_def .
  have f4: "\<forall>d' k'. (d', k') \<noteq> (d, k) \<longrightarrow> cache_get c' d' k' = cache_get c d' k'"
    using r(4) by blast
  have f5: "\<forall>d'. d' \<noteq> d \<longrightarrow> map_of c' d' = map_of c d'"
    using r(3) by blast
  have f7: "(\<forall>k'. k' \<noteq> k \<longrightarrow> cache_get c d k' = None) \<longrightarrow> map_of c' d = None"
    using r(6) by blast
  show "\<exists>d k c'. cache_items c ! nat (N - 1) = (d, k) \<and>
         remove_cache_N c N = (c', Removed_cache_entry N d k) \<and>
         cache_items c' = take (nat (N - 1)) (cache_items c) @ drop (nat N) (cache_items c) \<and>
         (\<forall>d' k'. (d', k') \<noteq> (d, k) \<longrightarrow> cache_get c' d' k' = cache_get c d' k') \<and>
         (\<forall>d'. d' \<noteq> d \<longrightarrow> map_of c' d' = map_of c d') \<and>
         cache_get c' d k = None \<and>
         ((\<forall>k'. k' \<noteq> k \<longrightarrow> cache_get c d k' = None) \<longrightarrow> map_of c' d = None) \<and>
         wf_cache c'"
    by (rule exI [of _ d], rule exI [of _ k], rule exI [of _ c'])
       (intro conjI f1 r(1) f3 f4 f5 r(5) f7 r(7))
next
  assume "N < 1 \<or> int (length (cache_items c)) < N"
  then show "remove_cache_N c N = (c, Invalid_entry_number N)"
    unfolding remove_cache_N_def Let_def by auto
qed


theorem remove_cache_N_index_witness:
  "wf_cache xy_cache \<and>
   list_cache xy_cache = [(''x.com'', K_NS), (''x.com'', K_A), (''y.com'', K_A)] \<and>
   remove_cache_N xy_cache 2
     = ([(''x.com'', [B_NS [''ns.x.com'']]), (''y.com'', [B_A [''2.2.2.2'']])],
        Removed_cache_entry 2 ''x.com'' K_A) \<and>
   cache_items (fst (remove_cache_N xy_cache 2)) = [(''x.com'', K_NS), (''y.com'', K_A)] \<and>
   remove_cache_N xy_cache 3
     = ([(''x.com'', [B_NS [''ns.x.com''], B_A [''1.1.1.1'']])],
        Removed_cache_entry 3 ''y.com'' K_A) \<and>
   remove_cache_N xy_cache 0 = (xy_cache, Invalid_entry_number 0) \<and>
   remove_cache_N xy_cache 4 = (xy_cache, Invalid_entry_number 4)"
proof -
  have wf: "wf_cache xy_cache"
    by (simp add: wf_cache_def xy_cache_def)
  have items: "cache_items xy_cache = [(''x.com'', K_NS), (''x.com'', K_A), (''y.com'', K_A)]"
    by (simp add: cache_items_def xy_cache_def)
  have l: "list_cache xy_cache = [(''x.com'', K_NS), (''x.com'', K_A), (''y.com'', K_A)]"
    using remove_cache_N_index [OF wf, of 0, THEN conjunct1] items by simp
  have r0: "remove_cache_N xy_cache 0 = (xy_cache, Invalid_entry_number 0)"
    using remove_cache_N_index [OF wf, of 0, THEN conjunct2, THEN conjunct2] by simp
  have r4: "remove_cache_N xy_cache 4 = (xy_cache, Invalid_entry_number 4)"
    using remove_cache_N_index [OF wf, of 4, THEN conjunct2, THEN conjunct2] items by simp
  have "1 \<le> (2::int) \<and> 2 \<le> int (length (cache_items xy_cache))"
    by (simp add: items)
  from remove_cache_N_index [OF wf, of 2, THEN conjunct2, THEN conjunct1, rule_format, OF this]
  obtain d k c' where
    "remove_cache_N xy_cache 2 = (c', Removed_cache_entry 2 d k)"
    "cache_items c' = take (nat (2 - 1)) (cache_items xy_cache) @ drop (nat 2) (cache_items xy_cache)"
    by blast
  then have i2: "cache_items (fst (remove_cache_N xy_cache 2)) = [(''x.com'', K_NS), (''y.com'', K_A)]"
    by (simp add: items)
  have r2: "remove_cache_N xy_cache 2
     = ([(''x.com'', [B_NS [''ns.x.com'']]), (''y.com'', [B_A [''2.2.2.2'']])],
        Removed_cache_entry 2 ''x.com'' K_A)"
    by (simp add: remove_cache_N_def items) (simp add: xy_cache_def cache_entry_def)
  have r3: "remove_cache_N xy_cache 3
     = ([(''x.com'', [B_NS [''ns.x.com''], B_A [''1.1.1.1'']])],
        Removed_cache_entry 3 ''y.com'' K_A)"
    by (simp add: remove_cache_N_def items) (simp add: xy_cache_def cache_entry_def)
  show ?thesis using wf l r0 r4 r2 i2 r3 by simp
qed

section \<open>Choice of the next server\<close>

lemma first_glue_find:
  "first_glue nsl ips =
     (case find (\<lambda>ns. map_of ips ns \<noteq> None) nsl of
        None \<Rightarrow> None
      | Some ns \<Rightarrow> (case map_of ips ns of None \<Rightarrow> None | Some l \<Rightarrow> Some (ns, l)))"
  by (induction nsl) (auto split: option.splits)

lemma select_server_glue:
  assumes "find (\<lambda>ns. map_of ips ns \<noteq> None) nsl = Some ns"
    and "map_of ips ns = Some (ip # others)"
  shows "select_server net h nsl ips = (Inr (Some ip), h)"
  using assms by (simp add: select_server_def first_glue_find)

lemma ns_ips_of_singletons:
  assumes "\<forall>n l. map_of acc n = Some l \<longrightarrow> (\<exists>ip. l = [ip])"
    and "map_of (ns_ips_of nsl addl acc) ns = Some l"
  shows "\<exists>ip. l = [ip]"
  using assms
proof (induction addl arbitrary: acc)
  case Nil
  then show ?case by simp
next
  case (Cons a addl)
  show ?case
  proof (cases "rtype a = T_A \<and> rstrip_dot (rname a) \<in> set nsl")
    case True
    let ?acc = "dict_set (rstrip_dot (rname a)) [rdata a] acc"
    have "\<forall>n l. map_of ?acc n = Some l \<longrightarrow> (\<exists>ip. l = [ip])"
      using Cons.prems(1) by (auto simp: map_of_dict_set)
    moreover have "map_of (ns_ips_of nsl addl ?acc) ns = Some l"
      using Cons.prems(2) True by simp
    ultimately show ?thesis by (rule Cons.IH)
  next
    case False
    with Cons.prems(2) have "map_of (ns_ips_of nsl addl acc) ns = Some l" by auto
    with Cons.prems(1) show ?thesis by (rule Cons.IH)
  qed
qed

lemma host_fallback_trace:
  "\<exists>r k. k \<le> length nsl \<and>
     host_fallback net h nsl = (r, h @ map (\<lambda>ns. Lookup (rstrip_dot ns)) (take k nsl)) \<and>
     (\<forall>j<k. gethostbyname net (h @ map (\<lambda>ns. Lookup (rstrip_dot ns)) (take (Suc j) nsl))
              = (if Suc j = k then r else None)) \<and>
     (r = None \<longrightarrow> k = length nsl) \<and> (r \<noteq> None \<longrightarrow> 0 < k)"
proof (induction nsl arbitrary: h)
  case Nil
  show ?case by simp
next
  case (Cons ns rest)
  let ?L = "\<lambda>ns. Lookup (rstrip_dot ns)"
  let ?h1 = "h @ [?L ns]"
  show ?case
  proof (cases "gethostbyname net ?h1")
    case (Some ip)
    have "host_fallback net h (ns # rest) = (Some ip, h @ map ?L (take 1 (ns # rest)))"
      using Some by simp
    moreover have "\<forall>j<1. gethostbyname net (h @ map ?L (take (Suc j) (ns # rest)))
              = (if Suc j = 1 then Some ip else None)"
      using Some by simp
    ultimately show ?thesis
      by (intro exI [of _ "Some ip"] exI [of _ 1]) simp
  next
    case None
    from Cons.IH [of ?h1] obtain r k where k: "k \<le> length rest"
      and hf: "host_fallback net ?h1 rest = (r, ?h1 @ map ?L (take k rest))"
      and tr: "\<forall>j<k. gethostbyname net (?h1 @ map ?L (take (Suc j) rest))
                 = (if Suc j = k then r else None)"
      and rn: "r = None \<longrightarrow> k = length rest" and rs: "r \<noteq> None \<longrightarrow> 0 < k"
      by blast
    have a: "host_fallback net h (ns # rest) = (r, h @ map ?L (take (Suc k) (ns # rest)))"
      using None hf by simp
    have b: "gethostbyname net (h @ map ?L (take (Suc j) (ns # rest)))
              = (if Suc j = Suc k then r else None)" if "j < Suc k" for j
    proof (cases j)
      case 0
      with None rs show ?thesis by auto
    next
      case (Suc j')
      with that tr show ?thesis by simp
    qed
    show ?thesis
      by (rule exI [of _ r], rule exI [of _ "Suc k"]) (use k a b rn in auto)
  qed
qed

lemma select_server_fallback:
  assumes "find (\<lambda>ns. map_of ips ns \<noteq> None) nsl = None"
  shows "\<exists>r k. k \<le> length nsl \<and>
     select_server net h nsl ips = (Inr r, h @ map (\<lambda>ns. Lookup (rstrip_dot ns)) (take k nsl)) \<and>
     (\<forall>j<k. gethostbyname net (h @ map (\<lambda>ns. Lookup (rstrip_dot ns)) (take (Suc j) nsl))
              = (if Suc j = k then r else None)) \<and>
     (r = None \<longrightarrow> k = length nsl) \<and> (r \<noteq> None \<longrightarrow> 0 < k)"
proof -
  from host_fallback_trace [of nsl net h] obtain r k where
    *: "k \<le> length nsl"
    "host_fallback net h nsl = (r, h @ map (\<lambda>ns. Lookup (rstrip_dot ns)) (take k nsl))"
    "\<forall>j<k. gethostbyname net (h @ map (\<lambda>ns. Lookup (rstrip_dot ns)) (take (Suc j) nsl))
              = (if Suc j = k then r else None)"
    "r = None \<longrightarrow> k = length nsl" "r \<noteq> None \<longrightarrow> 0 < k"
    by blast
  have "select_server net h nsl ips = (Inr r, h @ map (\<lambda>ns. Lookup (rstrip_dot ns)) (take k nsl))"
    using assms *(2) by (simp add: select_server_def first_glue_find)
  with * show ?thesis by blast
qed

lemma loop_body_query:
  assumes "cache_NS c1 sfx = None"
    and "get_dns_record net h1 sfx srv T_NS = Some (Some resp, h2)"
    and "ns_answers_of resp \<noteq> []"
  shows "loop_body net c1 h1 srv sfx =
     (let nsl = ns_answers_of resp; ips = ns_ips_of nsl (additional resp) [];
          c2 = cache_put (cache_put c1 sfx (B_NS nsl)) sfx (B_NS_IP ips)
      in case select_server net h2 nsl ips of
           (Inl e, h3) \<Rightarrow> Some (Raise e c2 h3)
         | (Inr None, h3) \<Rightarrow> Some (ReturnNone c2 h3)
         | (Inr (Some ip), h3) \<Rightarrow> Some (Next c2 h3 ip))"
  using assms by (simp add: loop_body_def query_step_def Let_def)

lemma resolve_no_server:
  assumes "cache_A c domain = None"
    and "rounds net n (suffixes_of domain, c, h0, ROOT_SERVER) = Some (sfx # rest, c1, h1, srv)"
    and "cache_NS c1 sfx = None"
    and "get_dns_record net h1 sfx srv T_NS = Some (Some resp, h2)"
    and "ns_answers_of resp \<noteq> []"
    and "select_server net h2 (ns_answers_of resp)
           (ns_ips_of (ns_answers_of resp) (additional resp) []) = (Inr None, h3)"
  shows "resolve net domain c h0 =
     Some (PyNone,
           cache_put (cache_put c1 sfx (B_NS (ns_answers_of resp))) sfx
             (B_NS_IP (ns_ips_of (ns_answers_of resp) (additional resp) [])), h3)"
proof -
  let ?c2 = "cache_put (cache_put c1 sfx (B_NS (ns_answers_of resp))) sfx
             (B_NS_IP (ns_ips_of (ns_answers_of resp) (additional resp) []))"
  have "loop_body net c1 h1 srv sfx = Some (ReturnNone ?c2 h3)"
    using loop_body_query [OF assms(3,4,5)] assms(6) by (simp add: Let_def)
  then have "walk net (sfx # rest) c1 h1 srv = Some (Aborted ?c2 h3)" by simp
  then have "walk net (suffixes_of domain) c h0 ROOT_SERVER = Some (Aborted ?c2 h3)"
    using walk_rounds [OF assms(2)] by simp
  then show ?thesis
    using assms(1) by (subst resolve.simps) simp
qed

lemma rounds_next_server:
  assumes "rounds net n st = Some (sfx # rest, c1, h1, srv)"
    and "cache_NS c1 sfx = None"
    and "get_dns_record net h1 sfx srv T_NS = Some (Some resp, h2)"
    and "ns_answers_of resp \<noteq> []"
    and "select_server net h2 (ns_answers_of resp)
           (ns_ips_of (ns_answers_of resp) (additional resp) []) = (Inr (Some ip), h3)"
  shows "rounds net (Suc n) st =
     Some (rest,
           cache_put (cache_put c1 sfx (B_NS (ns_answers_of resp))) sfx
             (B_NS_IP (ns_ips_of (ns_answers_of resp) (additional resp) [])), h3, ip)"
proof -
  let ?c2 = "cache_put (cache_put c1 sfx (B_NS (ns_answers_of resp))) sfx
             (B_NS_IP (ns_ips_of (ns_answers_of resp) (additional resp) []))"
  have "loop_body net c1 h1 srv sfx = Some (Next ?c2 h3 ip)"
    using loop_body_query [OF assms(2,3,4)] assms(5) by (simp add: Let_def)
  with assms(1) show ?thesis by (rule rounds_Suc)
qed


lemmas rec_defs = ns_rec_def a_rec_def cname_rec_def ns_answers_of_def rstrip_dot_def
  select_server_def cache_put_def


text \<open>
  Claim C4 fails on the code where a name server has more than one glue address. The
  delegation for \<^verbatim>\<open>com\<close> names \<^verbatim>\<open>ns1.com\<close> and the additional section lists two A records
  for it, \<^verbatim>\<open>1.1.1.1\<close> and then \<^verbatim>\<open>2.2.2.2\<close>. Each assignment \<^verbatim>\<open>ns_ips[name] = [address]\<close>
  replaces the one before, so the mapping holds the address listed last, and that is the
  server the A query goes to; the address listed first is never used.
\<close>

theorem glue_last_address_wins:
  "get_dns_record two_glue_net [] ''com'' ROOT_SERVER T_NS
     = Some (Some two_glue_resp, [Query ''com'' ROOT_SERVER T_NS]) \<and>
   map rdata (additional two_glue_resp) = [''1.1.1.1'', ''2.2.2.2''] \<and>
   ns_answers_of two_glue_resp = [''ns1.com''] \<and>
   ns_ips_of [''ns1.com''] (additional two_glue_resp) [] = [(''ns1.com'', [''2.2.2.2''])] \<and>
   select_server two_glue_net [Query ''com'' ROOT_SERVER T_NS] [''ns1.com'']
       [(''ns1.com'', [''2.2.2.2''])]
     = (Inr (Some ''2.2.2.2''), [Query ''com'' ROOT_SERVER T_NS]) \<and>
   resolve two_glue_net ''com'' [] []
     = Some (Ips [''1.2.3.4''],
             [(''com'', [B_NS [''ns1.com''], B_NS_IP [(''ns1.com'', [''2.2.2.2''])],
                         B_A [''1.2.3.4'']])],
             [Query ''com'' ROOT_SERVER T_NS, Query ''com'' ''2.2.2.2'' T_A])"
proof -
  have a: "get_dns_record two_glue_net [] ''com'' ROOT_SERVER T_NS
     = Some (Some two_glue_resp, [Query ''com'' ROOT_SERVER T_NS])"
    by (simp add: eval_defs two_glue_net_def two_glue_resp_def)
  have b: "map rdata (additional two_glue_resp) = [''1.1.1.1'', ''2.2.2.2'']"
    by (simp add: two_glue_resp_def a_rec_def)
  have c: "ns_answers_of two_glue_resp = [''ns1.com'']"
    by (simp add: rec_defs two_glue_resp_def)
  have d: "ns_ips_of [''ns1.com''] (additional two_glue_resp) [] = [(''ns1.com'', [''2.2.2.2''])]"
    by (simp add: rec_defs two_glue_resp_def)
  have e: "select_server two_glue_net [Query ''com'' ROOT_SERVER T_NS] [''ns1.com'']
       [(''ns1.com'', [''2.2.2.2''])]
     = (Inr (Some ''2.2.2.2''), [Query ''com'' ROOT_SERVER T_NS])"
    by (simp add: select_server_def)
  have f: "resolve two_glue_net ''com'' [] []
     = Some (Ips [''1.2.3.4''],
             [(''com'', [B_NS [''ns1.com''], B_NS_IP [(''ns1.com'', [''2.2.2.2''])],
                         B_A [''1.2.3.4'']])],
             [Query ''com'' ROOT_SERVER T_NS, Query ''com'' ''2.2.2.2'' T_A])"
    by (subst resolve.simps)
       (simp add: eval_defs rec_defs two_glue_net_def query_step_def Let_def a_records_def)
  show ?thesis
    by (intro conjI a b c d e f)
qed

section \<open>Writing a delegation into the cache\<close>

lemma cache_get_put:
  "cache_get (cache_put c d b) d' k = (if d' = d \<and> k = key_of b then Some b else cache_get c d' k)"
  by (simp add: cache_get_def cache_put_def cache_entry_def map_of_dict_set entry_get_set)

lemma cache_NS_put_NS: "cache_NS (cache_put c d (B_NS l)) d' = (if d' = d then Some l else cache_NS c d')"
  by (simp add: cache_NS_def cache_get_put)

lemma cache_NS_put_other: "key_of b \<noteq> K_NS \<Longrightarrow> cache_NS (cache_put c d b) d' = cache_NS c d'"
  by (auto simp: cache_NS_def cache_get_put)

lemma cache_A_put_A: "cache_A (cache_put c d (B_A l)) d' = (if d' = d then Some l else cache_A c d')"
  by (simp add: cache_A_def cache_get_put)

lemma cache_A_put_other: "key_of b \<noteq> K_A \<Longrightarrow> cache_A (cache_put c d b) d' = cache_A c d'"
  by (auto simp: cache_A_def cache_get_put)

lemma query_writes_cache:
  assumes "cache_NS c s = None"
    and "get_dns_record net h s srv T_NS = Some (Some resp, h1)"
    and "ns_answers_of resp \<noteq> []"
  shows "\<exists>st. loop_body net c h srv s = Some st \<and>
           step_cache st = cache_put (cache_put c s (B_NS (ns_answers_of resp))) s
                             (B_NS_IP (ns_ips_of (ns_answers_of resp) (additional resp) []))"
  using loop_body_query [OF assms]
  by (auto simp: Let_def split: prod.splits sum.splits option.splits)

lemma empty_ns_stops_walk:
  assumes "cache_NS c s = None"
    and "get_dns_record net h s srv T_NS = Some (Some resp, h1)"
    and "ns_answers_of resp = []"
  shows "loop_body net c h srv s = Some (Break c h1)"
    and "walk net (s # rest) c h srv = Some (Walked c h1 srv)"
    and "rounds net n (sufs0, c0, h0, srv0) = Some (s # rest, c, h, srv) \<Longrightarrow>
         walk net sufs0 c0 h0 srv0 = Some (Walked c h1 srv)"
proof -
  show b: "loop_body net c h srv s = Some (Break c h1)"
    using assms by (simp add: loop_body_def query_step_def)
  then show w: "walk net (s # rest) c h srv = Some (Walked c h1 srv)" by simp
  show "walk net sufs0 c0 h0 srv0 = Some (Walked c h1 srv)"
    if "rounds net n (sufs0, c0, h0, srv0) = Some (s # rest, c, h, srv)"
    using walk_rounds [OF that] w by simp
qed

text \<open>
  Claim C5, as the code has it. When the NS query of a round returns a response whose
  list of name servers is not empty, the list and the glue mapping are in the cache for
  that suffix when the round ends, whatever \<^verbatim>\<open>NS_IP\<close> value was there before, and no other
  domain's buckets and no \<^verbatim>\<open>A\<close> bucket change; the choice of the next server runs on the
  history after the query and the round carries this cache whether the choice succeeds,
  fails or raises. When the list is empty the round leaves the loop by \<^verbatim>\<open>break\<close> with the
  cache untouched, and the walk stops there: whatever suffixes remain, the loop over the
  suffixes ends with the cache and the server the round began with and a history that ends
  with this query; so does the whole walk this round belongs to.
\<close>

theorem ns_answers_cached:
  assumes "cache_NS c s = None"
    and "get_dns_record net h s srv T_NS = Some (Some resp, h1)"
  shows "(ns_answers_of resp \<noteq> [] \<longrightarrow>
           (\<exists>st. loop_body net c h srv s = Some st \<and>
              cache_NS (step_cache st) s = Some (ns_answers_of resp) \<and>
              cache_get (step_cache st) s K_NS_IP
                = Some (B_NS_IP (ns_ips_of (ns_answers_of resp) (additional resp) [])) \<and>
              (\<forall>d k. d \<noteq> s \<or> k = K_A \<longrightarrow> cache_get (step_cache st) d k = cache_get c d k) \<and>
              (\<exists>sel. select_server net h1 (ns_answers_of resp)
                        (ns_ips_of (ns_answers_of resp) (additional resp) []) = sel \<and>
                 st = (case sel of
                         (Inl e, h2) \<Rightarrow> Raise e (step_cache st) h2
                       | (Inr None, h2) \<Rightarrow> ReturnNone (step_cache st) h2
                       | (Inr (Some ip), h2) \<Rightarrow> Next (step_cache st) h2 ip)))) \<and>
         (ns_answers_of resp = [] \<longrightarrow>
            loop_body net c h srv s = Some (Break c h1) \<and>
            walk net (s # rest) c h srv = Some (Walked c h1 srv) \<and>
            (rounds net n (sufs0, c0, h0, srv0) = Some (s # rest, c, h, srv) \<longrightarrow>
               walk net sufs0 c0 h0 srv0 = Some (Walked c h1 srv)))"
proof (intro conjI impI)
  assume ne: "ns_answers_of resp \<noteq> []"
  let ?nsl = "ns_answers_of resp"
  let ?ips = "ns_ips_of ?nsl (additional resp) []"
  let ?c2 = "cache_put (cache_put c s (B_NS ?nsl)) s (B_NS_IP ?ips)"
  from query_writes_cache [OF assms ne] obtain st where
    st: "loop_body net c h srv s = Some st" and sc: "step_cache st = ?c2" by blast
  have a: "cache_NS (step_cache st) s = Some ?nsl"
    by (simp add: sc cache_NS_put_other cache_NS_put_NS)
  have b: "cache_get (step_cache st) s K_NS_IP = Some (B_NS_IP ?ips)"
    by (simp add: sc cache_get_put)
  have c: "\<forall>d k. d \<noteq> s \<or> k = K_A \<longrightarrow> cache_get (step_cache st) d k = cache_get c d k"
    by (auto simp: sc cache_get_put)
  have d: "st = (case select_server net h1 ?nsl ?ips of
                         (Inl e, h2) \<Rightarrow> Raise e (step_cache st) h2
                       | (Inr None, h2) \<Rightarrow> ReturnNone (step_cache st) h2
                       | (Inr (Some ip), h2) \<Rightarrow> Next (step_cache st) h2 ip)"
    using st loop_body_query [OF assms ne]
    by (auto simp: Let_def split: prod.splits sum.splits option.splits)
  show "\<exists>st. loop_body net c h srv s = Some st \<and>
              cache_NS (step_cache st) s = Some ?nsl \<and>
              cache_get (step_cache st) s K_NS_IP = Some (B_NS_IP ?ips) \<and>
              (\<forall>d k. d \<noteq> s \<or> k = K_A \<longrightarrow> cache_get (step_cache st) d k = cache_get c d k) \<and>
              (\<exists>sel. select_server net h1 ?nsl ?ips = sel \<and>
                 st = (case sel of
                         (Inl e, h2) \<Rightarrow> Raise e (step_cache st) h2
                       | (Inr None, h2) \<Rightarrow> ReturnNone (step_cache st) h2
                       | (Inr (Some ip), h2) \<Rightarrow> Next (step_cache st) h2 ip))"
    using st a b c d by blast
next
  assume e: "ns_answers_of resp = []"
  show "loop_body net c h srv s = Some (Break c h1)"
    using assms e by (rule empty_ns_stops_walk(1))
  show "walk net (s # rest) c h srv = Some (Walked c h1 srv)"
    using assms e by (rule empty_ns_stops_walk(2))
  assume "rounds net n (sufs0, c0, h0, srv0) = Some (s # rest, c, h, srv)"
  with assms e show "walk net sufs0 c0 h0 srv0 = Some (Walked c h1 srv)"
    by (rule empty_ns_stops_walk(3))
qed

theorem ns_answers_cached_witness:
  "cache_NS stale_cache ''com'' = None \<and>
   get_dns_record glue_net [] ''com'' ROOT_SERVER T_NS
     = Some (Some glue_resp, [Query ''com'' ROOT_SERVER T_NS]) \<and>
   ns_answers_of glue_resp = [''ns1.com'', ''ns2.com''] \<and>
   loop_body glue_net stale_cache [] ROOT_SERVER ''com''
     = Some (Next [(''com'', [B_NS_IP [(''ns2.com'', [''10.0.0.2''])],
                              B_NS [''ns1.com'', ''ns2.com'']])]
               [Query ''com'' ROOT_SERVER T_NS] ''10.0.0.2'') \<and>
   cache_NS (step_cache (the (loop_body glue_net stale_cache [] ROOT_SERVER ''com''))) ''com''
     = Some [''ns1.com'', ''ns2.com''] \<and>
   suffixes_of ''a.b.c'' = [''c'', ''b.c'', ''a.b.c''] \<and>
   rounds stop_net 1 ([''c'', ''b.c'', ''a.b.c''], [], [], ROOT_SERVER)
     = Some ([''b.c'', ''a.b.c''],
             [(''c'', [B_NS [''ns.c''], B_NS_IP [(''ns.c'', [''10.0.0.1''])]])],
             [Query ''c'' ROOT_SERVER T_NS], ''10.0.0.1'') \<and>
   walk stop_net [''c'', ''b.c'', ''a.b.c''] [] [] ROOT_SERVER
     = Some (Walked [(''c'', [B_NS [''ns.c''], B_NS_IP [(''ns.c'', [''10.0.0.1''])]])]
               [Query ''c'' ROOT_SERVER T_NS, Query ''b.c'' ''10.0.0.1'' T_NS] ''10.0.0.1'') \<and>
   resolve stop_net ''a.b.c'' [] []
     = Some (Ips [''1.2.3.4''],
             [(''c'', [B_NS [''ns.c''], B_NS_IP [(''ns.c'', [''10.0.0.1''])]]),
              (''a.b.c'', [B_A [''1.2.3.4'']])],
             [Query ''c'' ROOT_SERVER T_NS, Query ''b.c'' ''10.0.0.1'' T_NS,
              Query ''a.b.c'' ''10.0.0.1'' T_A])"
proof -
  have a: "cache_NS stale_cache ''com'' = None"
    by (simp add: stale_cache_def cache_NS_def cache_get_def cache_entry_def)
  have b: "get_dns_record glue_net [] ''com'' ROOT_SERVER T_NS
        = Some (Some glue_resp, [Query ''com'' ROOT_SERVER T_NS])"
    by (simp add: eval_defs glue_net_def glue_resp_def)
  have t2: "ns_answers_of glue_resp = [''ns1.com'', ''ns2.com'']"
    by (simp add: rec_defs glue_resp_def)
  have t3: "ns_ips_of [''ns1.com'', ''ns2.com''] (additional glue_resp) []
        = [(''ns2.com'', [''10.0.0.2''])]"
    by (simp add: rec_defs glue_resp_def)
  have ne: "ns_answers_of glue_resp \<noteq> []"
    by (simp add: t2)
  from ns_answers_cached [OF a b, THEN conjunct1, rule_format, OF ne]
  obtain st where st: "loop_body glue_net stale_cache [] ROOT_SERVER ''com'' = Some st"
    and ns: "cache_NS (step_cache st) ''com'' = Some (ns_answers_of glue_resp)"
    by blast
  have e: "loop_body glue_net stale_cache [] ROOT_SERVER ''com''
     = Some (Next [(''com'', [B_NS_IP [(''ns2.com'', [''10.0.0.2''])],
                              B_NS [''ns1.com'', ''ns2.com'']])]
               [Query ''com'' ROOT_SERVER T_NS] ''10.0.0.2'')"
    using loop_body_query [OF a b ne]
    by (simp add: t2 t3 Let_def select_server_def stale_cache_def cache_put_def cache_entry_def)
  have f: "cache_NS (step_cache (the (loop_body glue_net stale_cache [] ROOT_SERVER ''com''))) ''com''
     = Some [''ns1.com'', ''ns2.com'']"
    using st ns by (simp add: t2)
  let ?c1 = "[(''c'', [B_NS [''ns.c''], B_NS_IP [(''ns.c'', [''10.0.0.1''])]])]"
  let ?empty = "\<lparr>answers = [], authority = [], additional = []\<rparr>"
  have s: "suffixes_of ''a.b.c'' = [''c'', ''b.c'', ''a.b.c'']"
    by (simp add: suffixes_of_def)
  have r1: "rounds stop_net 1 ([''c'', ''b.c'', ''a.b.c''], [], [], ROOT_SERVER)
     = Some ([''b.c'', ''a.b.c''], ?c1, [Query ''c'' ROOT_SERVER T_NS], ''10.0.0.1'')"
    by (simp add: eval_defs rec_defs stop_net_def query_step_def Let_def)
  have n1: "cache_NS ?c1 ''b.c'' = None"
    by (simp add: cache_NS_def cache_get_def cache_entry_def)
  have g1: "get_dns_record stop_net [Query ''c'' ROOT_SERVER T_NS] ''b.c'' ''10.0.0.1'' T_NS
     = Some (Some ?empty, [Query ''c'' ROOT_SERVER T_NS, Query ''b.c'' ''10.0.0.1'' T_NS])"
    by (simp add: eval_defs stop_net_def)
  have e1: "ns_answers_of ?empty = []"
    by (simp add: ns_answers_of_def)
  have w: "walk stop_net [''c'', ''b.c'', ''a.b.c''] [] [] ROOT_SERVER
     = Some (Walked ?c1 [Query ''c'' ROOT_SERVER T_NS, Query ''b.c'' ''10.0.0.1'' T_NS] ''10.0.0.1'')"
    using ns_answers_cached [OF n1 g1, where rest = "[''a.b.c'']" and n = 1
        and ?sufs0.0 = "[''c'', ''b.c'', ''a.b.c'']" and ?c0.0 = "[]" and ?h0.0 = "[]"
        and ?srv0.0 = ROOT_SERVER, THEN conjunct2, rule_format, OF e1]
      r1
    by simp
  have g2: "get_dns_record stop_net [Query ''c'' ROOT_SERVER T_NS, Query ''b.c'' ''10.0.0.1'' T_NS]
        ''a.b.c'' ''10.0.0.1'' T_A
     = Some (Some \<lparr>answers = [a_rec ''a.b.c.'' ''1.2.3.4''], authority = [], additional = []\<rparr>,
             [Query ''c'' ROOT_SERVER T_NS, Query ''b.c'' ''10.0.0.1'' T_NS,
              Query ''a.b.c'' ''10.0.0.1'' T_A])"
    by (simp add: eval_defs stop_net_def)
  have r: "resolve stop_net ''a.b.c'' [] []
     = Some (Ips [''1.2.3.4''],
             [(''c'', [B_NS [''ns.c''], B_NS_IP [(''ns.c'', [''10.0.0.1''])]]),
              (''a.b.c'', [B_A [''1.2.3.4'']])],
             [Query ''c'' ROOT_SERVER T_NS, Query ''b.c'' ''10.0.0.1'' T_NS,
              Query ''a.b.c'' ''10.0.0.1'' T_A])"
    by (subst resolve.simps)
       (simp add: s w g2 cache_A_def cache_get_def cache_entry_def a_rec_def a_records_def
          cache_put_def Let_def del: walk.simps)
  show ?thesis
    by (intro conjI a b t2 e f s r1 w r)
qed

text \<open>
  The claim as stated fails for an empty list: the NS query for \<^verbatim>\<open>com\<close> returns a response
  without NS records, \<^verbatim>\<open>resolve\<close> goes on to the A query and succeeds, and the cache it
  leaves has neither an \<^verbatim>\<open>NS\<close> nor an \<^verbatim>\<open>NS_IP\<close> bucket for \<^verbatim>\<open>com\<close>.
\<close>

theorem empty_ns_not_cached:
  "get_dns_record empty_ns_net [] ''com'' ROOT_SERVER T_NS
     = Some (Some \<lparr>answers = [], authority = [], additional = []\<rparr>, [Query ''com'' ROOT_SERVER T_NS]) \<and>
   resolve empty_ns_net ''com'' [] []
     = Some (Ips [''1.2.3.4''], [(''com'', [B_A [''1.2.3.4'']])],
             [Query ''com'' ROOT_SERVER T_NS, Query ''com'' ROOT_SERVER T_A]) \<and>
   cache_get [(''com'', [B_A [''1.2.3.4'']])] ''com'' K_NS = None \<and>
   cache_get [(''com'', [B_A [''1.2.3.4'']])] ''com'' K_NS_IP = None"
proof -
  have a: "get_dns_record empty_ns_net [] ''com'' ROOT_SERVER T_NS
     = Some (Some \<lparr>answers = [], authority = [], additional = []\<rparr>, [Query ''com'' ROOT_SERVER T_NS])"
    by (simp add: eval_defs empty_ns_net_def)
  have b: "get_dns_record empty_ns_net [Query ''com'' ROOT_SERVER T_NS] ''com'' ROOT_SERVER T_A
     = Some (Some \<lparr>answers = [a_rec ''com.'' ''1.2.3.4''], authority = [], additional = []\<rparr>,
             [Query ''com'' ROOT_SERVER T_NS, Query ''com'' ROOT_SERVER T_A])"
    by (simp add: eval_defs empty_ns_net_def)
  have w: "walk empty_ns_net (suffixes_of ''com'') [] [] ROOT_SERVER
      = Some (Walked [] [Query ''com'' ROOT_SERVER T_NS] ROOT_SERVER)"
    using a by (simp add: suffixes_of_def loop_body_def query_step_def cache_NS_def cache_get_def
        cache_entry_def ns_answers_of_def)
  have r: "resolve empty_ns_net ''com'' [] []
     = Some (Ips [''1.2.3.4''], [(''com'', [B_A [''1.2.3.4'']])],
             [Query ''com'' ROOT_SERVER T_NS, Query ''com'' ROOT_SERVER T_A])"
    by (subst resolve.simps)
       (simp add: w b cache_A_def cache_get_def cache_entry_def a_rec_def a_records_def cache_put_def
          Let_def)
  show ?thesis using a r by (simp add: cache_get_def cache_entry_def)
qed

section \<open>Cache keys\<close>








section \<open>What a round, a walk and a call add to history and cache\<close>

lemma cache_le_refl: "cache_le c c"
  by (simp add: cache_le_def)

lemma cache_le_trans: "cache_le a b \<Longrightarrow> cache_le b c \<Longrightarrow> cache_le a c"
  by (simp add: cache_le_def)

lemma fresh_events_mono: "cache_le c c' \<Longrightarrow> fresh_events c' evs \<Longrightarrow> fresh_events c evs"
  unfolding cache_le_def fresh_events_def by blast

lemma fresh_events_append:
  "fresh_events c (xs @ ys) \<longleftrightarrow> fresh_events c xs \<and> fresh_events c ys"
  unfolding fresh_events_def by auto

lemma fresh_events_Nil: "fresh_events c []"
  by (simp add: fresh_events_def)

lemma host_fallback_lookups:
  "\<exists>ls. snd (host_fallback net h nsl) = h @ map Lookup ls"
proof (induction nsl arbitrary: h)
  case Nil
  show ?case by simp
next
  case (Cons ns rest)
  show ?case
  proof (cases "gethostbyname net (h @ [Lookup (rstrip_dot ns)])")
    case None
    from Cons [of "h @ [Lookup (rstrip_dot ns)]"] obtain ls where
      "snd (host_fallback net (h @ [Lookup (rstrip_dot ns)]) rest)
         = (h @ [Lookup (rstrip_dot ns)]) @ map Lookup ls" by blast
    then have "snd (host_fallback net h (ns # rest)) = h @ map Lookup (rstrip_dot ns # ls)"
      using None by simp
    then show ?thesis by blast
  next
    case (Some ip)
    then have "snd (host_fallback net h (ns # rest)) = h @ map Lookup [rstrip_dot ns]"
      by simp
    then show ?thesis by blast
  qed
qed

lemma select_server_lookups:
  "\<exists>ls. snd (select_server net h nsl ips) = h @ map Lookup ls"
proof (cases "first_glue nsl ips")
  case None
  from host_fallback_lookups [of net h nsl] obtain ls where
    "snd (host_fallback net h nsl) = h @ map Lookup ls" by blast
  with None have "snd (select_server net h nsl ips) = h @ map Lookup ls"
    by (auto simp: select_server_def split: prod.splits)
  then show ?thesis by blast
next
  case (Some p)
  then have "snd (select_server net h nsl ips) = h @ map Lookup []"
    by (cases p) (simp add: select_server_def split: list.splits)
  then show ?thesis by blast
qed

lemma get_dns_record_hist:
  "get_dns_record net h d s t = Some (r, h') \<Longrightarrow> h' = h @ [Query d s t]"
  by (auto simp: get_dns_record_def Let_def split: received.splits)

text \<open>One round: what it adds to the history and what it does to the cache.\<close>

lemma cached_step_facts:
  "step_hist (cached_step c h srv nsl s) = h \<and> step_cache (cached_step c h srv nsl s) = c"
  by (simp add: cached_step_def split: option.splits prod.splits list.splits)

lemma query_step_facts:
  assumes "query_step net c h srv s = Some st"
  shows "\<exists>ls. step_hist st = h @ Query s srv T_NS # map Lookup ls"
    and "step_cache st = c \<or>
         (\<exists>nsl ips. step_cache st = cache_put (cache_put c s (B_NS nsl)) s (B_NS_IP ips))"
proof -
  from assms obtain r h1 where g: "get_dns_record net h s srv T_NS = Some (r, h1)"
    by (auto simp: query_step_def split: option.splits)
  then have h1: "h1 = h @ [Query s srv T_NS]" by (rule get_dns_record_hist)
  show "\<exists>ls. step_hist st = h @ Query s srv T_NS # map Lookup ls"
  proof (cases r)
    case None
    with assms g h1 have "step_hist st = h @ Query s srv T_NS # map Lookup []"
      by (auto simp: query_step_def)
    then show ?thesis by blast
  next
    case (Some resp)
    show ?thesis
    proof (cases "ns_answers_of resp = []")
      case True
      with assms g h1 Some have "step_hist st = h @ Query s srv T_NS # map Lookup []"
        by (auto simp: query_step_def)
      then show ?thesis by blast
    next
      case False
      let ?nsl = "ns_answers_of resp"
      let ?ips = "ns_ips_of ?nsl (additional resp) []"
      from select_server_lookups [of net h1 ?nsl ?ips] obtain ls where
        ls: "snd (select_server net h1 ?nsl ?ips) = h1 @ map Lookup ls" by blast
      from assms g Some False have "step_hist st = snd (select_server net h1 ?nsl ?ips)"
        by (auto simp: query_step_def Let_def split: prod.splits sum.splits option.splits)
      with ls h1 have "step_hist st = h @ Query s srv T_NS # map Lookup ls" by simp
      then show ?thesis by blast
    qed
  qed
  show "step_cache st = c \<or>
         (\<exists>nsl ips. step_cache st = cache_put (cache_put c s (B_NS nsl)) s (B_NS_IP ips))"
  proof (cases r)
    case None
    with assms g show ?thesis by (auto simp: query_step_def)
  next
    case (Some resp)
    show ?thesis
    proof (cases "ns_answers_of resp = []")
      case True
      with assms g Some show ?thesis by (auto simp: query_step_def)
    next
      case False
      with assms g Some have
        "step_cache st = cache_put (cache_put c s (B_NS (ns_answers_of resp))) s
           (B_NS_IP (ns_ips_of (ns_answers_of resp) (additional resp) []))"
        by (auto simp: query_step_def Let_def split: prod.splits sum.splits option.splits)
      then show ?thesis by blast
    qed
  qed
qed

lemma loop_body_facts:
  assumes "loop_body net c h srv s = Some st"
  shows "\<exists>evs. step_hist st = h @ evs \<and> fresh_events c evs \<and>
           (cache_NS c s \<noteq> None \<longrightarrow> evs = []) \<and>
           (cache_NS c s = None \<longrightarrow> (\<exists>ls. evs = Query s srv T_NS # map Lookup ls))"
    and "\<forall>d. cache_A (step_cache st) d = cache_A c d"
    and "\<forall>s'. s' \<noteq> s \<longrightarrow> cache_NS (step_cache st) s' = cache_NS c s'"
    and "cache_NS c s \<noteq> None \<longrightarrow> step_cache st = c"
    and "cache_le c (step_cache st)"
proof -
  show ev: "\<exists>evs. step_hist st = h @ evs \<and> fresh_events c evs \<and>
           (cache_NS c s \<noteq> None \<longrightarrow> evs = []) \<and>
           (cache_NS c s = None \<longrightarrow> (\<exists>ls. evs = Query s srv T_NS # map Lookup ls))"
  proof (cases "cache_NS c s")
    case (Some nsl)
    with assms have "step_hist st = h @ []"
      using cached_step_facts [of c h srv nsl s] by (auto simp: loop_body_def)
    with Some show ?thesis by (auto simp: fresh_events_def)
  next
    case None
    with assms have "query_step net c h srv s = Some st" by (simp add: loop_body_def)
    from query_step_facts(1) [OF this] obtain ls where
      "step_hist st = h @ Query s srv T_NS # map Lookup ls" by blast
    moreover have "fresh_events c (Query s srv T_NS # map Lookup ls)"
      using None by (auto simp: fresh_events_def)
    ultimately show ?thesis using None by blast
  qed
  have cases: "step_cache st = c \<or>
         (cache_NS c s = None \<and>
          (\<exists>nsl ips. step_cache st = cache_put (cache_put c s (B_NS nsl)) s (B_NS_IP ips)))"
  proof (cases "cache_NS c s")
    case (Some nsl)
    with assms show ?thesis
      using cached_step_facts [of c h srv nsl s] by (auto simp: loop_body_def)
  next
    case None
    with assms have "query_step net c h srv s = Some st" by (simp add: loop_body_def)
    from query_step_facts(2) [OF this] None show ?thesis by blast
  qed
  then show "\<forall>d. cache_A (step_cache st) d = cache_A c d"
    by (auto simp: cache_A_put_other)
  from cases show ns: "\<forall>s'. s' \<noteq> s \<longrightarrow> cache_NS (step_cache st) s' = cache_NS c s'"
    by (auto simp: cache_NS_put_other cache_NS_put_NS)
  from cases show "cache_NS c s \<noteq> None \<longrightarrow> step_cache st = c" by auto
  from cases show "cache_le c (step_cache st)"
    by (auto simp: cache_le_def cache_A_put_other cache_NS_put_other cache_NS_put_NS)
qed


lemma loop_body_ReturnNone:
  "loop_body net c h srv s = Some (ReturnNone c1 h1) \<Longrightarrow> cache_NS c s = None"
  by (auto simp: loop_body_def cached_step_def split: option.splits prod.splits list.splits)

lemma resolve_induct [consumes 1]:
  assumes r: "resolve net d c h = Some y"
    and hit: "\<And>net d c h ips. cache_A c d = Some ips \<Longrightarrow> P net d c h (Ips ips, c, h)"
    and crashed: "\<And>net d c h e c1 h1. cache_A c d = None \<Longrightarrow>
        walk net (suffixes_of d) c h ROOT_SERVER = Some (Crashed e c1 h1) \<Longrightarrow>
        P net d c h (Raised e, c1, h1)"
    and aborted: "\<And>net d c h c1 h1. cache_A c d = None \<Longrightarrow>
        walk net (suffixes_of d) c h ROOT_SERVER = Some (Aborted c1 h1) \<Longrightarrow>
        P net d c h (PyNone, c1, h1)"
    and failed: "\<And>net d c h c1 h1 srv h2. cache_A c d = None \<Longrightarrow>
        walk net (suffixes_of d) c h ROOT_SERVER = Some (Walked c1 h1 srv) \<Longrightarrow>
        get_dns_record net h1 d srv T_A = Some (None, h2) \<Longrightarrow>
        P net d c h (PyNone, c1, h2)"
    and answered: "\<And>net d c h c1 h1 srv h2 resp. cache_A c d = None \<Longrightarrow>
        walk net (suffixes_of d) c h ROOT_SERVER = Some (Walked c1 h1 srv) \<Longrightarrow>
        get_dns_record net h1 d srv T_A = Some (Some resp, h2) \<Longrightarrow>
        find_cname (answers resp) = None \<Longrightarrow> a_records (answers resp) \<noteq> [] \<Longrightarrow>
        P net d c h (Ips (a_records (answers resp)),
                     cache_put c1 d (B_A (a_records (answers resp))), h2)"
    and empty: "\<And>net d c h c1 h1 srv h2 resp. cache_A c d = None \<Longrightarrow>
        walk net (suffixes_of d) c h ROOT_SERVER = Some (Walked c1 h1 srv) \<Longrightarrow>
        get_dns_record net h1 d srv T_A = Some (Some resp, h2) \<Longrightarrow>
        find_cname (answers resp) = None \<Longrightarrow> a_records (answers resp) = [] \<Longrightarrow>
        P net d c h (PyNone, c1, h2)"
    and restart: "\<And>net d c h c1 h1 srv h2 resp t y. cache_A c d = None \<Longrightarrow>
        walk net (suffixes_of d) c h ROOT_SERVER = Some (Walked c1 h1 srv) \<Longrightarrow>
        get_dns_record net h1 d srv T_A = Some (Some resp, h2) \<Longrightarrow>
        find_cname (answers resp) = Some t \<Longrightarrow> resolve net t c1 h2 = Some y \<Longrightarrow>
        P net t c1 h2 y \<Longrightarrow> P net d c h y"
  shows "P net d c h y"
  using r
proof (induction net d c h y rule: resolve.raw_induct)
  case (1 resolve' net d c h y)
  show ?case
  proof (cases "cache_A c d")
    case (Some ips)
    with 1(2) hit show ?thesis by auto
  next
    case None
    note cA = None
    show ?thesis
    proof (cases "walk net (suffixes_of d) c h ROOT_SERVER")
      case None
      with 1(2) cA show ?thesis by simp
    next
      case (Some w)
      show ?thesis
      proof (cases w)
        case (Crashed e c1 h1)
        with 1(2) cA Some crashed show ?thesis by auto
      next
        case (Aborted c1 h1)
        with 1(2) cA Some aborted show ?thesis by auto
      next
        case (Walked c1 h1 srv)
        note w = Some [unfolded Walked]
        show ?thesis
        proof (cases "get_dns_record net h1 d srv T_A")
          case None
          with 1(2) cA w show ?thesis by simp
        next
          case (Some p)
          obtain r h2 where p: "p = (r, h2)" by (cases p) auto
          note g = Some [unfolded p]
          show ?thesis
          proof (cases r)
            case None
            with 1(2) cA w g failed [OF cA w] show ?thesis by auto
          next
            case (Some resp)
            note g' = g [unfolded Some]
            show ?thesis
            proof (cases "find_cname (answers resp)")
              case None
              show ?thesis
              proof (cases "a_records (answers resp) = []")
                case True
                with 1(2) cA w g' None empty [OF cA w g' None] show ?thesis by auto
              next
                case False
                with 1(2) cA w g' None answered [OF cA w g' None] show ?thesis
                  by (auto simp: Let_def)
              qed
            next
              case (Some t)
              with 1(2) cA w g' have approx: "resolve' net t c1 h2 = Some y" by simp
              have "resolve net d c h = resolve net t c1 h2"
                by (subst resolve.simps) (simp add: cA w g' Some)
              with 1(3) have real: "resolve net t c1 h2 = Some y" by simp
              from approx real have "P net t c1 h2 y" by (rule 1(1))
              with cA w g' Some real show ?thesis by (rule restart)
            qed
          qed
        qed
      qed
    qed
  qed
qed (rule r)

lemma walk_facts:
  assumes "walk net sufs c h srv = Some w"
  shows "\<exists>evs. walked_hist w = h @ evs \<and> fresh_events c evs \<and>
           (evs = [] \<or> (\<exists>q s t rest. evs = Query q s t # rest)) \<and>
           ((\<exists>c1 h1. w = Aborted c1 h1) \<longrightarrow> evs \<noteq> [])"
    and "\<forall>d. cache_A (walked_cache w) d = cache_A c d"
    and "cache_le c (walked_cache w)"
  using assms
proof (induction sufs arbitrary: c h srv)
  case Nil
  {
    case 1
    then have "walked_hist w = h @ []" by auto
    then show ?case using 1 by (auto simp: fresh_events_def)
  next
    case 2
    then show ?case by auto
  next
    case 3
    then show ?case by (auto simp: cache_le_refl)
  }
next
  case (Cons s rest)
  {
    case 1
    then obtain st where st: "loop_body net c h srv s = Some st"
      by (auto split: option.splits)
    from loop_body_facts(1) [OF st] obtain evs1 where
      e1: "step_hist st = h @ evs1" "fresh_events c evs1"
      "cache_NS c s = None \<longrightarrow> (\<exists>ls. evs1 = Query s srv T_NS # map Lookup ls)"
      by auto
    have s1: "evs1 = [] \<or> (\<exists>q s t rest. evs1 = Query q s t # rest)"
      using loop_body_facts(1) [OF st] e1(1) by (cases "cache_NS c s") auto
    show ?case
    proof (cases st)
      case (Next c1 h1 srv1)
      with 1 st have w: "walk net rest c1 h1 srv1 = Some w" by simp
      from Cons.IH(1) [OF w] obtain evs2 where
        e2: "walked_hist w = h1 @ evs2" "fresh_events c1 evs2"
        "evs2 = [] \<or> (\<exists>q s t rest. evs2 = Query q s t # rest)"
        "(\<exists>c1 h1. w = Aborted c1 h1) \<longrightarrow> evs2 \<noteq> []" by blast
      from loop_body_facts(5) [OF st] Next have le: "cache_le c c1" by simp
      have "walked_hist w = h @ (evs1 @ evs2)" using e1(1) e2(1) Next by simp
      moreover have "fresh_events c (evs1 @ evs2)"
        using e1(2) fresh_events_mono [OF le e2(2)] by (simp add: fresh_events_append)
      moreover have "evs1 @ evs2 = [] \<or> (\<exists>q s t rest. evs1 @ evs2 = Query q s t # rest)"
        using s1 e2(3) by (cases evs1) auto
      moreover have "(\<exists>c1 h1. w = Aborted c1 h1) \<longrightarrow> evs1 @ evs2 \<noteq> []"
        using e2(4) by simp
      ultimately show ?thesis by blast
    next
      case (Break c1 h1)
      with 1 st have "w = Walked c1 h1 srv" by simp
      with e1 s1 Break show ?thesis by auto
    next
      case (ReturnNone c1 h1)
      with 1 st have w: "w = Aborted c1 h1" by simp
      from st ReturnNone have "cache_NS c s = None" by (auto dest: loop_body_ReturnNone)
      with e1(3) have "evs1 \<noteq> []" by auto
      with w e1 s1 ReturnNone show ?thesis by auto
    next
      case (Raise e c1 h1)
      with 1 st have "w = Crashed e c1 h1" by simp
      with e1 s1 Raise show ?thesis by auto
    qed
  next
    case 2
    then obtain st where st: "loop_body net c h srv s = Some st"
      by (auto split: option.splits)
    show ?case
    proof (cases st)
      case (Next c1 h1 srv1)
      with 2 st have w: "walk net rest c1 h1 srv1 = Some w" by simp
      from Cons.IH(2) [OF w] loop_body_facts(2) [OF st] Next show ?thesis by simp
    qed (use 2 st loop_body_facts(2) [OF st] in auto)
  next
    case 3
    then obtain st where st: "loop_body net c h srv s = Some st"
      by (auto split: option.splits)
    show ?case
    proof (cases st)
      case (Next c1 h1 srv1)
      with 3 st have w: "walk net rest c1 h1 srv1 = Some w" by simp
      from Cons.IH(3) [OF w] loop_body_facts(5) [OF st] Next show ?thesis
        by (auto intro: cache_le_trans)
    qed (use 3 st loop_body_facts(5) [OF st] in auto)
  }
qed


lemma cache_le_put: "cache_le c (cache_put c d b)"
  by (cases b) (auto simp: cache_le_def cache_NS_put_NS cache_NS_put_other cache_A_put_A
      cache_A_put_other)

lemma resolve_facts:
  assumes "resolve net d c h = Some y"
  shows "\<exists>evs. snd (snd y) = h @ evs \<and> fresh_events c evs \<and> cache_le c (fst (snd y)) \<and>
           ((\<forall>e. fst y \<noteq> Raised e) \<longrightarrow> cache_A c d = None \<longrightarrow>
              (\<exists>q s t rest. evs = Query q s t # rest))"
  using assms
proof (induction rule: resolve_induct)
  fix net :: "'a net" and d c h ips
  assume "cache_A c d = Some ips"
  then show "\<exists>evs. snd (snd (Ips ips, c, h)) = h @ evs \<and> fresh_events c evs \<and>
           cache_le c (fst (snd (Ips ips, c, h))) \<and>
           ((\<forall>e. fst (Ips ips, c, h) \<noteq> Raised e) \<longrightarrow> cache_A c d = None \<longrightarrow>
              (\<exists>q s t rest. evs = Query q s t # rest))"
    by (auto simp: fresh_events_Nil cache_le_refl)
next
  fix net :: "'a net" and d c h e c1 h1
  assume "cache_A c d = None"
    and w: "walk net (suffixes_of d) c h ROOT_SERVER = Some (Crashed e c1 h1)"
  from walk_facts(1) [OF w] walk_facts(3) [OF w]
  show "\<exists>evs. snd (snd (Raised e, c1, h1)) = h @ evs \<and> fresh_events c evs \<and>
           cache_le c (fst (snd (Raised e, c1, h1))) \<and>
           ((\<forall>e'. fst (Raised e, c1, h1) \<noteq> Raised e') \<longrightarrow> cache_A c d = None \<longrightarrow>
              (\<exists>q s t rest. evs = Query q s t # rest))"
    by auto
next
  fix net :: "'a net" and d c h c1 h1
  assume "cache_A c d = None"
    and w: "walk net (suffixes_of d) c h ROOT_SERVER = Some (Aborted c1 h1)"
  from walk_facts(1) [OF w] walk_facts(3) [OF w]
  show "\<exists>evs. snd (snd (PyNone, c1, h1)) = h @ evs \<and> fresh_events c evs \<and>
           cache_le c (fst (snd (PyNone, c1, h1))) \<and>
           ((\<forall>e. fst (PyNone, c1, h1) \<noteq> Raised e) \<longrightarrow> cache_A c d = None \<longrightarrow>
              (\<exists>q s t rest. evs = Query q s t # rest))"
    by auto
next
  fix net :: "'a net" and d c h c1 h1 srv h2
  assume cA: "cache_A c d = None"
    and w: "walk net (suffixes_of d) c h ROOT_SERVER = Some (Walked c1 h1 srv)"
    and g: "get_dns_record net h1 d srv T_A = Some (None, h2)"
  from walk_facts(1) [OF w] obtain evs1 where
    e1: "h1 = h @ evs1" "fresh_events c evs1" "evs1 = [] \<or> (\<exists>q s t rest. evs1 = Query q s t # rest)"
    by auto
  from g have h2: "h2 = h1 @ [Query d srv T_A]" by (rule get_dns_record_hist)
  have a: "h2 = h @ (evs1 @ [Query d srv T_A])" using e1(1) h2 by simp
  have b: "fresh_events c (evs1 @ [Query d srv T_A])"
    using e1(2) cA by (auto simp: fresh_events_def)
  have c: "\<exists>q s t rest. evs1 @ [Query d srv T_A] = Query q s t # rest"
    using e1(3) by auto
  from a b c walk_facts(3) [OF w]
  show "\<exists>evs. snd (snd (PyNone, c1, h2)) = h @ evs \<and> fresh_events c evs \<and>
           cache_le c (fst (snd (PyNone, c1, h2))) \<and>
           ((\<forall>e. fst (PyNone, c1, h2) \<noteq> Raised e) \<longrightarrow> cache_A c d = None \<longrightarrow>
              (\<exists>q s t rest. evs = Query q s t # rest))"
    by auto
next
  fix net :: "'a net" and d c h c1 h1 srv h2 resp
  assume cA: "cache_A c d = None"
    and w: "walk net (suffixes_of d) c h ROOT_SERVER = Some (Walked c1 h1 srv)"
    and g: "get_dns_record net h1 d srv T_A = Some (Some resp, h2)"
  from walk_facts(1) [OF w] obtain evs1 where
    e1: "h1 = h @ evs1" "fresh_events c evs1" "evs1 = [] \<or> (\<exists>q s t rest. evs1 = Query q s t # rest)"
    by auto
  from g have h2: "h2 = h1 @ [Query d srv T_A]" by (rule get_dns_record_hist)
  have a: "h2 = h @ (evs1 @ [Query d srv T_A])" using e1(1) h2 by simp
  have b: "fresh_events c (evs1 @ [Query d srv T_A])"
    using e1(2) cA by (auto simp: fresh_events_def)
  have c: "\<exists>q s t rest. evs1 @ [Query d srv T_A] = Query q s t # rest"
    using e1(3) by auto
  have le: "cache_le c (cache_put c1 d (B_A (a_records (answers resp))))"
    using walk_facts(3) [OF w] cache_le_put cache_le_trans by fastforce
  from a b c le
  show "\<exists>evs. snd (snd (Ips (a_records (answers resp)),
                    cache_put c1 d (B_A (a_records (answers resp))), h2)) = h @ evs \<and>
           fresh_events c evs \<and>
           cache_le c (fst (snd (Ips (a_records (answers resp)),
                    cache_put c1 d (B_A (a_records (answers resp))), h2))) \<and>
           ((\<forall>e. fst (Ips (a_records (answers resp)),
                    cache_put c1 d (B_A (a_records (answers resp))), h2) \<noteq> Raised e) \<longrightarrow>
            cache_A c d = None \<longrightarrow> (\<exists>q s t rest. evs = Query q s t # rest))"
    by auto
  from a b c walk_facts(3) [OF w]
  show "\<exists>evs. snd (snd (PyNone, c1, h2)) = h @ evs \<and> fresh_events c evs \<and>
           cache_le c (fst (snd (PyNone, c1, h2))) \<and>
           ((\<forall>e. fst (PyNone, c1, h2) \<noteq> Raised e) \<longrightarrow> cache_A c d = None \<longrightarrow>
              (\<exists>q s t rest. evs = Query q s t # rest))"
    by auto
  fix t y
  assume ih: "\<exists>evs. snd (snd y) = h2 @ evs \<and> fresh_events c1 evs \<and> cache_le c1 (fst (snd y)) \<and>
           ((\<forall>e. fst y \<noteq> Raised e) \<longrightarrow> cache_A c1 t = None \<longrightarrow>
              (\<exists>q s t rest. evs = Query q s t # rest))"
  then obtain evs2 where e2: "snd (snd y) = h2 @ evs2" "fresh_events c1 evs2"
    "cache_le c1 (fst (snd y))" by auto
  have le1: "cache_le c c1" using walk_facts(3) [OF w] by simp
  have a': "snd (snd y) = h @ (evs1 @ Query d srv T_A # evs2)" using a e2(1) by simp
  have b': "fresh_events c (evs1 @ Query d srv T_A # evs2)"
    using b fresh_events_mono [OF le1 e2(2)] fresh_events_append [of c "evs1 @ [Query d srv T_A]" evs2]
    by simp
  have c': "\<exists>q s t rest. evs1 @ Query d srv T_A # evs2 = Query q s t # rest"
    using e1(3) by auto
  have le': "cache_le c (fst (snd y))" using le1 e2(3) by (rule cache_le_trans)
  from a' b' c' le'
  show "\<exists>evs. snd (snd y) = h @ evs \<and> fresh_events c evs \<and> cache_le c (fst (snd y)) \<and>
           ((\<forall>e. fst y \<noteq> Raised e) \<longrightarrow> cache_A c d = None \<longrightarrow>
              (\<exists>q s t rest. evs = Query q s t # rest))"
    by blast
qed

section \<open>No query for a cached bucket\<close>

lemma resolve_facts':
  assumes "resolve net d c h = Some (res, c', h')"
  shows "\<exists>evs. h' = h @ evs \<and> fresh_events c evs \<and> cache_le c c' \<and>
           ((\<forall>e. res \<noteq> Raised e) \<longrightarrow> cache_A c d = None \<longrightarrow>
              (\<exists>q s t rest. evs = Query q s t # rest))"
  using resolve_facts [OF assms] by simp

lemma get_dns_record_None: 
  "get_dns_record net h d s t = None \<longleftrightarrow> transport net (h @ [Query d s t]) = Blocks"
  by (simp add: get_dns_record_def Let_def split: received.splits)

lemma query_step_None:
  "query_step net c h srv s = None \<longleftrightarrow> get_dns_record net h s srv T_NS = None"
proof (cases "get_dns_record net h s srv T_NS")
  case None
  then show ?thesis by (simp add: query_step_def)
next
  case (Some p)
  obtain r h1 where p: "p = (r, h1)" by (cases p) auto
  show ?thesis
  proof (cases r)
    case None
    with Some p show ?thesis by (simp add: query_step_def)
  next
    case (Some resp)
    note g = \<open>get_dns_record net h s srv T_NS = Some p\<close> [unfolded p Some]
    show ?thesis
    proof (cases "ns_answers_of resp = []")
      case True
      with g show ?thesis by (simp add: query_step_def)
    next
      case False
      obtain x h2 where sel: "select_server net h1 (ns_answers_of resp)
          (ns_ips_of (ns_answers_of resp) (additional resp) []) = (x, h2)"
        by (cases "select_server net h1 (ns_answers_of resp)
          (ns_ips_of (ns_answers_of resp) (additional resp) [])") auto
      show ?thesis
      proof (cases x)
        case (Inl e)
        with g False sel show ?thesis by (simp add: query_step_def Let_def)
      next
        case (Inr o')
        with g False sel show ?thesis by (cases o') (simp_all add: query_step_def Let_def)
      qed
    qed
  qed
qed

lemma loop_body_None_iff:
  "cache_NS c s = None \<Longrightarrow>
   loop_body net c h srv s = None \<longleftrightarrow> transport net (h @ [Query s srv T_NS]) = Blocks"
  by (simp add: loop_body_def query_step_None get_dns_record_None)


lemma fresh_events_NS: "fresh_events c evs \<Longrightarrow> cache_NS c s = Some x \<Longrightarrow> Query s srv T_NS \<notin> set evs"
  unfolding fresh_events_def by fastforce

lemma fresh_events_A: "fresh_events c evs \<Longrightarrow> cache_A c q = Some x \<Longrightarrow> Query q srv T_A \<notin> set evs"
  unfolding fresh_events_def by fastforce

lemma run_never_requeries:
  assumes r: "resolve net d c h = Some (res, c', h')"
  shows "\<exists>evs. h' = h @ evs \<and>
         (\<forall>s srv. cache_NS c s \<noteq> None \<longrightarrow> Query s srv T_NS \<notin> set evs) \<and>
         (\<forall>q srv. cache_A c q \<noteq> None \<longrightarrow> Query q srv T_A \<notin> set evs)"
proof -
  from resolve_facts' [OF r] obtain evs where e: "h' = h @ evs" "fresh_events c evs"
    by (elim exE conjE)
  have a: "\<forall>s srv. cache_NS c s \<noteq> None \<longrightarrow> Query s srv T_NS \<notin> set evs"
    using fresh_events_NS [OF e(2)] by auto
  have b: "\<forall>q srv. cache_A c q \<noteq> None \<longrightarrow> Query q srv T_A \<notin> set evs"
    using fresh_events_A [OF e(2)] by auto
  show ?thesis
    by (rule exI [of _ evs]) (intro conjI e(1) a b)
qed

lemma cached_bucket_no_query:
  assumes "cache_NS c s \<noteq> None"
  shows "\<exists>st. loop_body net c h srv s = Some st \<and> step_hist st = h \<and> step_cache st = c"
proof -
  from assms obtain nsl where n: "cache_NS c s = Some nsl" by auto
  then have "loop_body net c h srv s = Some (cached_step c h srv nsl s)"
    by (simp add: loop_body_def)
  with cached_step_facts [of c h srv nsl s] show ?thesis by simp
qed

lemma absent_bucket_query:
  assumes n: "cache_NS c s = None"
  shows "case loop_body net c h srv s of
           None \<Rightarrow> transport net (h @ [Query s srv T_NS]) = Blocks
         | Some st \<Rightarrow> (\<exists>rest. step_hist st = h @ Query s srv T_NS # rest)"
proof (cases "loop_body net c h srv s")
  case None
  with loop_body_None_iff [OF n, of net h srv] show ?thesis by simp
next
  case (Some st)
  with n have "query_step net c h srv s = Some st" by (simp add: loop_body_def)
  from query_step_facts(1) [OF this] obtain ls where
    "step_hist st = h @ Query s srv T_NS # map Lookup ls" by (elim exE)
  then have "\<exists>rest. step_hist st = h @ Query s srv T_NS # rest" by (rule exI)
  with Some show ?thesis by simp
qed

lemma absent_A_query:
  assumes a: "cache_A c d = None" and r: "resolve net d c h = Some (res, c', h')"
    and nr: "\<forall>e. res \<noteq> Raised e"
  shows "\<exists>q srv t rest. h' = h @ Query q srv t # rest"
proof -
  from resolve_facts' [OF r] obtain evs where e: "h' = h @ evs"
    "(\<forall>e. res \<noteq> Raised e) \<longrightarrow> cache_A c d = None \<longrightarrow> (\<exists>q s t rest. evs = Query q s t # rest)"
    by (elim exE conjE)
  from e(2) [rule_format, OF _ a] nr obtain q s t rest where "evs = Query q s t # rest"
    by auto
  with e(1) have "h' = h @ Query q s t # rest" by simp
  then show ?thesis by (intro exI)
qed

lemma cached_A_no_query:
  assumes "cache_A c d \<noteq> None"
  shows "\<exists>ips. resolve net d c h = Some (Ips ips, c, h)"
proof -
  from assms obtain ips where "cache_A c d = Some ips" by auto
  then have "resolve net d c h = Some (Ips ips, c, h)"
    by (subst resolve.simps) simp
  then show ?thesis by (rule exI)
qed

section \<open>Alias records\<close>

lemma alias_restart:
  assumes "cache_A c d = None"
    and "walk net (suffixes_of d) c h ROOT_SERVER = Some (Walked c1 h1 srv)"
    and "get_dns_record net h1 d srv T_A = Some (Some resp, h2)"
    and "find_cname (answers resp) = Some t"
  shows "resolve net d c h = resolve net t c1 h2"
    and "\<forall>x. cache_A c1 x = cache_A c x"
proof -
  show "resolve net d c h = resolve net t c1 h2"
    by (subst resolve.simps) (simp add: assms)
  from walk_facts(2) [OF assms(2)] show "\<forall>x. cache_A c1 x = cache_A c x" by simp
qed

lemma chase_Suc:
  assumes "cache_A c d = None"
    and "walk net (suffixes_of d) c h ROOT_SERVER = Some (Walked c1 h1 srv)"
    and "get_dns_record net h1 d srv T_A = Some (Some resp, h2)"
    and "find_cname (answers resp) = Some t"
  shows "chase net (Suc n) d c h = chase net n t c1 h2"
  using assms by simp

lemma chase_Suc_elim:
  assumes "chase net (Suc n) d c h = Some y"
  obtains c1 h1 srv resp h2 t where "cache_A c d = None"
    and "walk net (suffixes_of d) c h ROOT_SERVER = Some (Walked c1 h1 srv)"
    and "get_dns_record net h1 d srv T_A = Some (Some resp, h2)"
    and "find_cname (answers resp) = Some t"
    and "chase net n t c1 h2 = Some y"
  using assms
  by (auto split: option.splits walked.splits prod.splits)

lemma chase_resolve:
  "chase net n d c h = Some (f, cf, hf) \<Longrightarrow>
   resolve net d c h = resolve net f cf hf \<and> (\<forall>x. cache_A cf x = cache_A c x)"
proof (induction n arbitrary: d c h)
  case 0
  then show ?case by simp
next
  case (Suc n)
  from Suc.prems obtain c1 h1 srv resp h2 t where
    a: "cache_A c d = None"
    "walk net (suffixes_of d) c h ROOT_SERVER = Some (Walked c1 h1 srv)"
    "get_dns_record net h1 d srv T_A = Some (Some resp, h2)"
    "find_cname (answers resp) = Some t"
    and b: "chase net n t c1 h2 = Some (f, cf, hf)"
    by (rule chase_Suc_elim)
  from Suc.IH [OF b] alias_restart [OF a] show ?case by simp
qed


lemma final_ok_0:
  assumes "\<forall>x. x \<noteq> d \<longrightarrow> cache_A c' x = cache_A c x"
    and "\<forall>ips. res = Ips ips \<longrightarrow> cache_A c' d = Some ips"
  shows "final_ok net d c h (res, c', h')"
  unfolding final_ok_def
  by (rule exI [of _ 0], rule exI [of _ d], rule exI [of _ c], rule exI [of _ h])
     (simp add: assms)

lemma resolve_final:
  assumes "resolve net d c h = Some y"
  shows "final_ok net d c h y"
  using assms
proof (induction rule: resolve_induct)
  fix net :: "'a net" and d c h ips
  assume "cache_A c d = Some ips"
  then show "final_ok net d c h (Ips ips, c, h)"
    by (intro final_ok_0) simp_all
next
  fix net :: "'a net" and d c h e c1 h1
  assume "walk net (suffixes_of d) c h ROOT_SERVER = Some (Crashed e c1 h1)"
  from walk_facts(2) [OF this] show "final_ok net d c h (Raised e, c1, h1)"
    by (intro final_ok_0) simp_all
next
  fix net :: "'a net" and d c h c1 h1
  assume "walk net (suffixes_of d) c h ROOT_SERVER = Some (Aborted c1 h1)"
  from walk_facts(2) [OF this] show "final_ok net d c h (PyNone, c1, h1)"
    by (intro final_ok_0) simp_all
next
  fix net :: "'a net" and d c h c1 h1 srv h2
  assume w: "walk net (suffixes_of d) c h ROOT_SERVER = Some (Walked c1 h1 srv)"
  from walk_facts(2) [OF w] show "final_ok net d c h (PyNone, c1, h2)"
    by (intro final_ok_0) simp_all
  from walk_facts(2) [OF w] show "final_ok net d c h (PyNone, c1, h2)"
    by (intro final_ok_0) simp_all
  fix resp :: response
  from walk_facts(2) [OF w]
  show "final_ok net d c h (Ips (a_records (answers resp)),
          cache_put c1 d (B_A (a_records (answers resp))), h2)"
    by (intro final_ok_0) (simp_all add: cache_A_put_A)
  assume cA: "cache_A c d = None"
    and g: "get_dns_record net h1 d srv T_A = Some (Some resp, h2)"
  fix t y
  assume fc: "find_cname (answers resp) = Some t" and ih: "final_ok net t c1 h2 y"
  from ih obtain n f cf hf where
    ch: "chase net n t c1 h2 = Some (f, cf, hf)"
    and o: "\<forall>x. x \<noteq> f \<longrightarrow> cache_A (fst (snd y)) x = cache_A c1 x"
    and r: "\<forall>ips. fst y = Ips ips \<longrightarrow> cache_A (fst (snd y)) f = Some ips"
    unfolding final_ok_def by (elim exE conjE)
  have ch': "chase net (Suc n) d c h = Some (f, cf, hf)"
    using chase_Suc [OF cA w g fc] ch by simp
  have o': "\<forall>x. x \<noteq> f \<longrightarrow> cache_A (fst (snd y)) x = cache_A c x"
    using o walk_facts(2) [OF w] by simp
  show "final_ok net d c h y"
    unfolding final_ok_def
    by (rule exI [of _ "Suc n"], rule exI [of _ f], rule exI [of _ cf], rule exI [of _ hf])
       (intro conjI ch' o' r)
qed

text \<open>
  Claim C3, as the code has it. When the answers of the A query hold a CNAME record,
  \<^verbatim>\<open>resolve\<close> takes the target of the first one as the new domain and starts again at the
  cache check, on the cache and history reached: the call for the alias is the call for
  the target from there, and the round that found the alias wrote no \<^verbatim>\<open>A\<close> bucket. Over
  a whole call that returns, the loop ends with some name reached by alias substitutions;
  the \<^verbatim>\<open>A\<close> bucket of every other name is as at the start, and a list that was returned is
  the \<^verbatim>\<open>A\<close> bucket of that final name.
\<close>

theorem alias_restarts_resolution:
  "(cache_A c d = None \<longrightarrow>
      walk net (suffixes_of d) c h ROOT_SERVER = Some (Walked c1 h1 srv) \<longrightarrow>
      get_dns_record net h1 d srv T_A = Some (Some resp, h2) \<longrightarrow>
      find_cname (answers resp) = Some t \<longrightarrow>
      resolve net d c h = resolve net t c1 h2 \<and> (\<forall>x. cache_A c1 x = cache_A c x))
   \<and> (resolve net d' c' h' = Some (res, cz, hz) \<longrightarrow>
        (\<exists>n f cf hf. chase net n d' c' h' = Some (f, cf, hf) \<and>
           resolve net f cf hf = Some (res, cz, hz) \<and>
           (\<forall>x. cache_A cf x = cache_A c' x) \<and>
           (\<forall>x. x \<noteq> f \<longrightarrow> cache_A cz x = cache_A c' x) \<and>
           (\<forall>ips. res = Ips ips \<longrightarrow> cache_A cz f = Some ips)))"
proof (intro conjI impI)
  assume a: "cache_A c d = None"
    "walk net (suffixes_of d) c h ROOT_SERVER = Some (Walked c1 h1 srv)"
    "get_dns_record net h1 d srv T_A = Some (Some resp, h2)"
    "find_cname (answers resp) = Some t"
  show "resolve net d c h = resolve net t c1 h2" by (rule alias_restart(1) [OF a])
  show "\<forall>x. cache_A c1 x = cache_A c x" by (rule alias_restart(2) [OF a])
next
  assume r: "resolve net d' c' h' = Some (res, cz, hz)"
  from resolve_final [OF r] obtain n f cf hf where
    ch: "chase net n d' c' h' = Some (f, cf, hf)"
    and o: "\<forall>x. x \<noteq> f \<longrightarrow> cache_A cz x = cache_A c' x"
    and i: "\<forall>ips. res = Ips ips \<longrightarrow> cache_A cz f = Some ips"
    unfolding final_ok_def by (elim exE conjE) simp
  from chase_resolve [OF ch] r have
    rf: "resolve net f cf hf = Some (res, cz, hz)" and ca: "\<forall>x. cache_A cf x = cache_A c' x"
    by simp_all
  show "\<exists>n f cf hf. chase net n d' c' h' = Some (f, cf, hf) \<and>
           resolve net f cf hf = Some (res, cz, hz) \<and>
           (\<forall>x. cache_A cf x = cache_A c' x) \<and>
           (\<forall>x. x \<noteq> f \<longrightarrow> cache_A cz x = cache_A c' x) \<and>
           (\<forall>ips. res = Ips ips \<longrightarrow> cache_A cz f = Some ips)"
    by (rule exI [of _ n], rule exI [of _ f], rule exI [of _ cf], rule exI [of _ hf])
       (intro conjI ch rf ca o i)
qed


lemmas run_defs = eval_defs rec_defs query_step_def Let_def a_records_def

lemma www_walk: "walk alias_net (suffixes_of ''www.example.com'') [] [] ROOT_SERVER
      = Some (Walked www_cache www_hist ''10.0.0.1'')"
  by (simp add: run_defs alias_net_def www_cache_def www_hist_def)

lemma www_get: "get_dns_record alias_net www_hist ''www.example.com'' ''10.0.0.1'' T_A
      = Some (Some \<lparr>answers = [cname_rec ''www.example.com.'' ''example.com.''],
                     authority = [], additional = []\<rparr>,
              www_hist @ [Query ''www.example.com'' ''10.0.0.1'' T_A])"
  by (simp add: eval_defs alias_net_def www_hist_def)

lemma www_second: "resolve alias_net ''example.com'' www_cache
        (www_hist @ [Query ''www.example.com'' ''10.0.0.1'' T_A])
      = Some (Ips [''5.6.7.8''], www_final,
              www_hist @ [Query ''www.example.com'' ''10.0.0.1'' T_A,
                          Query ''example.com'' ''10.0.0.1'' T_A])"
  by (subst resolve.simps)
     (simp add: run_defs alias_net_def www_cache_def www_hist_def www_final_def)

lemma cycle_net_fields:
  "transport cycle_net = cycle_reply"
  "parse_header cycle_net (hdr, rs) = Some (hdr, (hdr, rs))"
  "parse_question cycle_net b = Some b"
  "parse_rr cycle_net (hdr, rs) = (case rs of [] \<Rightarrow> None | r # rs' \<Rightarrow> Some (r, (hdr, rs')))"
  "gethostbyname cycle_net h = (case last h of Lookup n \<Rightarrow> Some ''9.9.9.9'' | _ \<Rightarrow> None)"
  by (simp_all add: cycle_net_def script_net_def)

lemmas cycle_defs = get_dns_record_def decode_def parse_body_def cycle_net_fields cycle_reply_def
  reply_packet_def NOERROR_def ROOT_SERVER_def cache_A_def cache_NS_def cache_get_def
  cache_entry_def suffixes_of_def loop_body_def cached_step_def cache_NS_IP_def rec_defs
  query_step_def Let_def a_records_def

lemma cycle_run: "resolve cycle_net ''a'' [] [] = Some (Ips [''5.6.7.8''], cycle_cache, cycle_hist)"
  unfolding cycle_cache_def cycle_hist_def
  by (subst resolve.simps, simp add: cycle_defs,
      subst resolve.simps, simp add: cycle_defs,
      subst resolve.simps, simp add: cycle_defs)


theorem alias_restarts_resolution_witness:
  "find_cname [cname_rec ''www.example.com.'' ''example.com.''] = Some ''example.com'' \<and>
   resolve alias_net ''www.example.com'' [] []
     = resolve alias_net ''example.com'' www_cache
         (www_hist @ [Query ''www.example.com'' ''10.0.0.1'' T_A]) \<and>
   resolve alias_net ''www.example.com'' [] []
     = Some (Ips [''5.6.7.8''], www_final,
             www_hist @ [Query ''www.example.com'' ''10.0.0.1'' T_A,
                         Query ''example.com'' ''10.0.0.1'' T_A]) \<and>
   cache_A www_final ''www.example.com'' = None \<and>
   cache_A www_final ''example.com'' = Some [''5.6.7.8''] \<and>
   chase alias_net 1 ''www.example.com'' [] []
     = Some (''example.com'', www_cache, www_hist @ [Query ''www.example.com'' ''10.0.0.1'' T_A])"
proof -
  have fc: "find_cname (answers \<lparr>answers = [cname_rec ''www.example.com.'' ''example.com.''],
                     authority = [], additional = []\<rparr>) = Some ''example.com''"
    by (simp add: rec_defs)
  have ca: "cache_A [] ''www.example.com'' = None"
    by (simp add: cache_A_def cache_get_def cache_entry_def)
  note step = alias_restarts_resolution [where net = alias_net and c = "[]"
      and d = "''www.example.com''" and h = "[]" and ?c1.0 = www_cache and ?h1.0 = www_hist
      and srv = "''10.0.0.1''" and ?h2.0 = "www_hist @ [Query ''www.example.com'' ''10.0.0.1'' T_A]"
      and t = "''example.com''", THEN conjunct1, rule_format, OF ca www_walk www_get fc]
  have r1: "resolve alias_net ''www.example.com'' [] []
     = resolve alias_net ''example.com'' www_cache
         (www_hist @ [Query ''www.example.com'' ''10.0.0.1'' T_A])"
    using step by simp
  have r: "resolve alias_net ''www.example.com'' [] []
     = Some (Ips [''5.6.7.8''], www_final,
             www_hist @ [Query ''www.example.com'' ''10.0.0.1'' T_A,
                         Query ''example.com'' ''10.0.0.1'' T_A])"
    using r1 www_second by simp
  have a1: "cache_A www_final ''www.example.com'' = None"
    by (simp add: www_final_def cache_A_def cache_get_def cache_entry_def)
  have a2: "cache_A www_final ''example.com'' = Some [''5.6.7.8'']"
    by (simp add: www_final_def cache_A_def cache_get_def cache_entry_def)
  have ch: "chase alias_net 1 ''www.example.com'' [] []
     = Some (''example.com'', www_cache, www_hist @ [Query ''www.example.com'' ''10.0.0.1'' T_A])"
    using chase_Suc [OF ca www_walk www_get fc, of 0] by simp
  have f0: "find_cname [cname_rec ''www.example.com.'' ''example.com.''] = Some ''example.com''"
    using fc by simp
  show ?thesis
    by (intro conjI f0 r1 r a1 a2 ch)
qed

text \<open>
  The claim as stated fails when the aliases lead back to the first name: \<^verbatim>\<open>a\<close> is an alias
  of \<^verbatim>\<open>b\<close> and \<^verbatim>\<open>b\<close> of \<^verbatim>\<open>a\<close> on the delegated server, and when \<^verbatim>\<open>a\<close> is resolved the second
  time its cached delegation has no glue, so the A query goes to the root, which answers
  with an address. The call for \<^verbatim>\<open>a\<close> returns that address and has written an \<^verbatim>\<open>A\<close> bucket
  under \<^verbatim>\<open>a\<close>, the name for which the first A query returned a CNAME record.
\<close>

theorem alias_name_gets_A_bucket:
  "cache_A [] ''a'' = None \<and>
   get_dns_record cycle_net [Query ''a'' ROOT_SERVER T_NS, Lookup ''ns.a''] ''a'' ''9.9.9.9'' T_A
     = Some (Some \<lparr>answers = [cname_rec ''a.'' ''b.''], authority = [], additional = []\<rparr>,
             [Query ''a'' ROOT_SERVER T_NS, Lookup ''ns.a'', Query ''a'' ''9.9.9.9'' T_A]) \<and>
   find_cname [cname_rec ''a.'' ''b.''] = Some ''b'' \<and>
   resolve cycle_net ''a'' [] [] = Some (Ips [''5.6.7.8''], cycle_cache, cycle_hist) \<and>
   cache_A cycle_cache ''a'' = Some [''5.6.7.8'']"
proof -
  have a: "cache_A [] ''a'' = None"
    by (simp add: cache_A_def cache_get_def cache_entry_def)
  have g: "get_dns_record cycle_net [Query ''a'' ROOT_SERVER T_NS, Lookup ''ns.a''] ''a'' ''9.9.9.9'' T_A
     = Some (Some \<lparr>answers = [cname_rec ''a.'' ''b.''], authority = [], additional = []\<rparr>,
             [Query ''a'' ROOT_SERVER T_NS, Lookup ''ns.a'', Query ''a'' ''9.9.9.9'' T_A])"
    by (simp add: get_dns_record_def decode_def parse_body_def cycle_net_fields cycle_reply_def
        reply_packet_def NOERROR_def)
  have f: "find_cname [cname_rec ''a.'' ''b.''] = Some ''b''"
    by (simp add: rec_defs)
  have c: "cache_A cycle_cache ''a'' = Some [''5.6.7.8'']"
    by (simp add: cycle_cache_def cache_A_def cache_get_def cache_entry_def)
  show ?thesis
    by (intro conjI a g f cycle_run c)
qed

section \<open>No query for a cached bucket, at any moment of a run\<close>

lemma rounds_cache_A:
  "rounds net k (sufs, c, h, srv) = Some (sufs', c', h', srv') \<Longrightarrow>
   \<forall>x. cache_A c' x = cache_A c x"
proof (induction k arbitrary: sufs c h srv)
  case 0
  then show ?case by simp
next
  case (Suc k)
  show ?case
  proof (cases sufs)
    case Nil
    with Suc.prems show ?thesis by simp
  next
    case (Cons s rest)
    from Suc.prems Cons obtain c2 h2 srv2 where
      lb: "loop_body net c h srv s = Some (Next c2 h2 srv2)"
      and rs: "rounds net k (rest, c2, h2, srv2) = Some (sufs', c', h', srv')"
      by (auto split: option.splits step.splits)
    from loop_body_facts(2) [OF lb] have "\<forall>x. cache_A c2 x = cache_A c x" by simp
    with Suc.IH [OF rs] show ?thesis by simp
  qed
qed

lemma run_from_round:
  assumes r: "resolve net d c h = Some (res, cz, hz)" and a: "cache_A c d = None"
    and k: "rounds net k (suffixes_of d, c, h, ROOT_SERVER) = Some (sufs, c1, h1, srv)"
  shows "\<exists>evs. hz = h1 @ evs \<and> fresh_events c1 evs"
proof -
  have w: "walk net (suffixes_of d) c h ROOT_SERVER = walk net sufs c1 h1 srv"
    using k by (rule walk_rounds)
  have a1: "cache_A c1 d = None"
    using rounds_cache_A [OF k] a by simp
  show ?thesis
  proof (cases "walk net sufs c1 h1 srv")
    case None
    with r a w show ?thesis by (subst (asm) resolve.simps) simp
  next
    case (Some wk)
    from walk_facts(1) [OF Some] obtain evs1 where
      e1: "walked_hist wk = h1 @ evs1" "fresh_events c1 evs1" by (elim exE conjE)
    from walk_facts(3) [OF Some] have le: "cache_le c1 (walked_cache wk)" .
    show ?thesis
    proof (cases wk)
      case (Crashed e cw hw)
      with r a w Some have "hz = hw" by (subst (asm) resolve.simps) simp
      with e1 Crashed have "hz = h1 @ evs1 \<and> fresh_events c1 evs1" by simp
      then show ?thesis by (rule exI)
    next
      case (Aborted cw hw)
      with r a w Some have "hz = hw" by (subst (asm) resolve.simps) simp
      with e1 Aborted have "hz = h1 @ evs1 \<and> fresh_events c1 evs1" by simp
      then show ?thesis by (rule exI)
    next
      case (Walked cw hw sv)
      have fq: "fresh_events c1 [Query d sv T_A]"
        using a1 by (simp add: fresh_events_def)
      from e1 Walked have hw: "hw = h1 @ evs1" by simp
      from le Walked have le': "cache_le c1 cw" by simp
      show ?thesis
      proof (cases "get_dns_record net hw d sv T_A")
        case None
        with r a w Some Walked show ?thesis by (subst (asm) resolve.simps) simp
      next
        case (Some p)
        obtain r0 h2 where p: "p = (r0, h2)" by (cases p) simp
        note g = Some [unfolded p]
        from get_dns_record_hist [OF g] have h2: "h2 = hw @ [Query d sv T_A]" .
        have base: "h2 = h1 @ (evs1 @ [Query d sv T_A]) \<and>
                    fresh_events c1 (evs1 @ [Query d sv T_A])"
          using h2 hw e1(2) fq by (simp add: fresh_events_append)
        show ?thesis
        proof (cases r0)
          case None
          with r a w \<open>walk net sufs c1 h1 srv = Some wk\<close> Walked g
          have "hz = h2" by (subst (asm) resolve.simps) simp
          with base have "hz = h1 @ (evs1 @ [Query d sv T_A]) \<and>
                    fresh_events c1 (evs1 @ [Query d sv T_A])" by simp
          then show ?thesis by (rule exI)
        next
          case (Some resp)
          note rs = Some
          show ?thesis
          proof (cases "find_cname (answers resp)")
            case None
            with r a w \<open>walk net sufs c1 h1 srv = Some wk\<close> Walked g rs
            have "hz = h2"
              by (subst (asm) resolve.simps) (simp add: Let_def split: if_splits)
            with base have "hz = h1 @ (evs1 @ [Query d sv T_A]) \<and>
                    fresh_events c1 (evs1 @ [Query d sv T_A])" by simp
            then show ?thesis by (rule exI)
          next
            case (Some t)
            with r a w \<open>walk net sufs c1 h1 srv = Some wk\<close> Walked g rs
            have "resolve net t cw h2 = Some (res, cz, hz)"
              by (subst (asm) resolve.simps) simp
            from resolve_facts' [OF this] obtain evs2 where
              e2: "hz = h2 @ evs2" "fresh_events cw evs2" by (elim exE conjE)
            from fresh_events_mono [OF le' e2(2)] have f2: "fresh_events c1 evs2" .
            from base have b2: "fresh_events c1 (evs1 @ [Query d sv T_A])" by (rule conjunct2)
            from b2 f2 have f3: "fresh_events c1 ((evs1 @ [Query d sv T_A]) @ evs2)"
              by (simp only: fresh_events_append simp_thms)
            have hz': "hz = h1 @ ((evs1 @ [Query d sv T_A]) @ evs2)"
              using base e2(1) by simp
            from hz' f3 have "hz = h1 @ ((evs1 @ [Query d sv T_A]) @ evs2) \<and>
                  fresh_events c1 ((evs1 @ [Query d sv T_A]) @ evs2)" by (rule conjI)
            then show ?thesis by (rule exI)
          qed
        qed
      qed
    qed
  qed
qed


lemma fresh_events_explicit:
  assumes "fresh_events c evs"
  shows "(\<forall>s srv. cache_NS c s \<noteq> None \<longrightarrow> Query s srv T_NS \<notin> set evs) \<and>
         (\<forall>q srv. cache_A c q \<noteq> None \<longrightarrow> Query q srv T_A \<notin> set evs)"
proof -
  have a: "\<forall>s srv. cache_NS c s \<noteq> None \<longrightarrow> Query s srv T_NS \<notin> set evs"
    using fresh_events_NS [OF assms] by auto
  have b: "\<forall>q srv. cache_A c q \<noteq> None \<longrightarrow> Query q srv T_A \<notin> set evs"
    using fresh_events_A [OF assms] by auto
  from a b show ?thesis by (rule conjI)
qed

lemma moment_pass:
  assumes r: "resolve net d c h = Some (res, cz, hz)"
    and ch: "chase net n d c h = Some (d', c', h')"
  shows "\<exists>evs. hz = h' @ evs \<and>
           (\<forall>s srv. cache_NS c' s \<noteq> None \<longrightarrow> Query s srv T_NS \<notin> set evs) \<and>
           (\<forall>q srv. cache_A c' q \<noteq> None \<longrightarrow> Query q srv T_A \<notin> set evs)"
proof -
  from chase_resolve [OF ch] r have r': "resolve net d' c' h' = Some (res, cz, hz)" by simp
  from resolve_facts' [OF r'] obtain evs where e: "hz = h' @ evs" "fresh_events c' evs"
    by (elim exE conjE)
  from e(1) fresh_events_explicit [OF e(2)]
  have "hz = h' @ evs \<and>
           ((\<forall>s srv. cache_NS c' s \<noteq> None \<longrightarrow> Query s srv T_NS \<notin> set evs) \<and>
            (\<forall>q srv. cache_A c' q \<noteq> None \<longrightarrow> Query q srv T_A \<notin> set evs))" by (rule conjI)
  then show ?thesis by (rule exI)
qed

lemma moment_round:
  assumes r: "resolve net d c h = Some (res, cz, hz)"
    and ch: "chase net n d c h = Some (d', c', h')"
    and a: "cache_A c' d' = None"
    and k: "rounds net k (suffixes_of d', c', h', ROOT_SERVER) = Some (sufs, c1, h1, srv)"
  shows "\<exists>evs. hz = h1 @ evs \<and>
           (\<forall>s srv. cache_NS c1 s \<noteq> None \<longrightarrow> Query s srv T_NS \<notin> set evs) \<and>
           (\<forall>q srv. cache_A c1 q \<noteq> None \<longrightarrow> Query q srv T_A \<notin> set evs)"
proof -
  from chase_resolve [OF ch] r have r': "resolve net d' c' h' = Some (res, cz, hz)" by simp
  from run_from_round [OF r' a k] obtain evs where e: "hz = h1 @ evs" "fresh_events c1 evs"
    by (elim exE conjE)
  from e(1) fresh_events_explicit [OF e(2)]
  have "hz = h1 @ evs \<and>
           ((\<forall>s srv. cache_NS c1 s \<noteq> None \<longrightarrow> Query s srv T_NS \<notin> set evs) \<and>
            (\<forall>q srv. cache_A c1 q \<noteq> None \<longrightarrow> Query q srv T_A \<notin> set evs))" by (rule conjI)
  then show ?thesis by (rule exI)
qed

lemma absent_bucket_first_query:
  assumes n: "cache_NS c s = None"
  shows "case loop_body net c h srv s of
           None \<Rightarrow> transport net (h @ [Query s srv T_NS]) = Blocks
         | Some st \<Rightarrow> (\<exists>ls. step_hist st = h @ Query s srv T_NS # map Lookup ls)"
proof (cases "loop_body net c h srv s")
  case None
  with loop_body_None_iff [OF n, of net h srv] show ?thesis by simp
next
  case (Some st)
  with n have "query_step net c h srv s = Some st" by (simp add: loop_body_def)
  from query_step_facts(1) [OF this] Some show ?thesis by simp
qed

lemma a_query_follows:
  assumes a: "cache_A c d = None"
    and w: "walk net (suffixes_of d) c h ROOT_SERVER = Some (Walked c1 h1 srv)"
    and r: "resolve net d c h = Some (res, cz, hz)"
  shows "cache_A c1 d = None \<and> (\<exists>rest. hz = h1 @ Query d srv T_A # rest)"
proof -
  from walk_facts(2) [OF w] a have a1: "cache_A c1 d = None" by simp
  have "\<exists>rest. hz = h1 @ Query d srv T_A # rest"
  proof (cases "get_dns_record net h1 d srv T_A")
    case None
    with r a w show ?thesis by (subst (asm) resolve.simps) simp
  next
    case (Some p)
    obtain r0 h2 where p: "p = (r0, h2)" by (cases p) simp
    note g = Some [unfolded p]
    from get_dns_record_hist [OF g] have h2: "h2 = h1 @ [Query d srv T_A]" .
    show ?thesis
    proof (cases r0)
      case None
      with r a w g have "hz = h2" by (subst (asm) resolve.simps) simp
      with h2 have "hz = h1 @ Query d srv T_A # []" by simp
      then show ?thesis by (rule exI)
    next
      case (Some resp)
      note rs = Some
      show ?thesis
      proof (cases "find_cname (answers resp)")
        case None
        with r a w g rs have "hz = h2"
          by (subst (asm) resolve.simps) (simp add: Let_def split: if_splits)
        with h2 have "hz = h1 @ Query d srv T_A # []" by simp
        then show ?thesis by (rule exI)
      next
        case (Some t)
        with r a w g rs have "resolve net t c1 h2 = Some (res, cz, hz)"
          by (subst (asm) resolve.simps) simp
        from resolve_facts' [OF this] obtain evs2 where "hz = h2 @ evs2"
          by (elim exE conjE)
        with h2 have "hz = h1 @ Query d srv T_A # evs2" by simp
        then show ?thesis by (rule exI)
      qed
    qed
  qed
  with a1 show ?thesis by (rule conjI)
qed

text \<open>
  Claim C7. Take any call of \<^verbatim>\<open>resolve\<close> that returns, and any moment of it at which the
  engine is about to consult the cache: the start of a pass of the \<^verbatim>\<open>while\<close> loop (after
  any number of alias restarts) or the head of a round of the walk of such a pass. From
  that moment to the end of the call no NS query is sent for a name whose \<^verbatim>\<open>NS\<close> bucket
  the cache holds at that moment, and no A query for a name whose \<^verbatim>\<open>A\<close> bucket it holds;
  so a bucket that was cached before the call or written during it is never queried
  afterwards. A pass that finds the \<^verbatim>\<open>A\<close> bucket of its domain returns at once with no
  call to the outside, and the round of a suffix whose \<^verbatim>\<open>NS\<close> bucket is present makes
  none and leaves the cache as it is. Absence leads to a query: the round of a suffix
  without an \<^verbatim>\<open>NS\<close> bucket begins with the NS query for that suffix at the current server,
  which blocks for ever or is followed in that round by host look-ups only; when the walk
  of a pass for a domain without an \<^verbatim>\<open>A\<close> bucket ends, the bucket is still absent and the
  next call to the outside is the A query for that domain at the server the walk ended
  with; and a call for a domain without an \<^verbatim>\<open>A\<close> bucket that returns a list or \<^verbatim>\<open>None\<close>
  has a query as its first call to the outside.
\<close>

theorem never_queries_cached_bucket:
  "(resolve net d c h = Some (res, cz, hz) \<longrightarrow> chase net n d c h = Some (d', c', h') \<longrightarrow>
      (\<exists>evs. hz = h' @ evs \<and>
         (\<forall>s srv. cache_NS c' s \<noteq> None \<longrightarrow> Query s srv T_NS \<notin> set evs) \<and>
         (\<forall>q srv. cache_A c' q \<noteq> None \<longrightarrow> Query q srv T_A \<notin> set evs)))
   \<and> (resolve net d c h = Some (res, cz, hz) \<longrightarrow> chase net n d c h = Some (d', c', h') \<longrightarrow>
        cache_A c' d' = None \<longrightarrow>
        rounds net k (suffixes_of d', c', h', ROOT_SERVER) = Some (sufs, c1, h1, srv1) \<longrightarrow>
        (\<exists>evs. hz = h1 @ evs \<and>
           (\<forall>s srv. cache_NS c1 s \<noteq> None \<longrightarrow> Query s srv T_NS \<notin> set evs) \<and>
           (\<forall>q srv. cache_A c1 q \<noteq> None \<longrightarrow> Query q srv T_A \<notin> set evs)))
   \<and> (cache_A c d \<noteq> None \<longrightarrow> (\<exists>ips. resolve net d c h = Some (Ips ips, c, h)))
   \<and> (cache_NS c s \<noteq> None \<longrightarrow>
        (\<exists>st. loop_body net c h srv s = Some st \<and> step_hist st = h \<and> step_cache st = c))
   \<and> (cache_NS c s = None \<longrightarrow>
        (case loop_body net c h srv s of
           None \<Rightarrow> transport net (h @ [Query s srv T_NS]) = Blocks
         | Some st \<Rightarrow> (\<exists>ls. step_hist st = h @ Query s srv T_NS # map Lookup ls)))
   \<and> (cache_A c d = None \<longrightarrow>
        walk net (suffixes_of d) c h ROOT_SERVER = Some (Walked cw hw srvw) \<longrightarrow>
        resolve net d c h = Some (res, cz, hz) \<longrightarrow>
        cache_A cw d = None \<and> (\<exists>rest. hz = hw @ Query d srvw T_A # rest))
   \<and> (cache_A c d = None \<longrightarrow> resolve net d c h = Some (res, cz, hz) \<longrightarrow>
        (\<forall>e. res \<noteq> Raised e) \<longrightarrow> (\<exists>q srv t rest. hz = h @ Query q srv t # rest))"
  (is "?A \<and> ?B \<and> ?C \<and> ?D \<and> ?E \<and> ?F \<and> ?G")
proof (intro conjI)
  show ?A by (intro impI) (rule moment_pass)
  show ?B by (intro impI) (rule moment_round)
  show ?C by (intro impI) (rule cached_A_no_query)
  show ?D by (intro impI) (rule cached_bucket_no_query)
  show ?E by (intro impI) (rule absent_bucket_first_query)
  show ?F by (intro impI) (rule a_query_follows)
  show ?G by (intro impI) (rule absent_A_query)
qed


theorem never_queries_cached_bucket_witness:
  "cache_NS c_cache ''c'' = Some [''ns.c''] \<and>
   cache_NS c_cache ''b.c'' = None \<and>
   resolve abc_net ''b.c'' c_cache []
     = Some (Ips [''1.2.3.4''], bc_cache,
             [Query ''b.c'' ''10.0.0.1'' T_NS, Query ''b.c'' ''10.0.0.2'' T_A]) \<and>
   rounds abc_net 2 (suffixes_of ''b.c'', c_cache, [], ROOT_SERVER)
     = Some ([], [(''c'', [B_NS [''ns.c''], B_NS_IP [(''ns.c'', [''10.0.0.1''])]]),
                  (''b.c'', [B_NS [''ns.b.c''], B_NS_IP [(''ns.b.c'', [''10.0.0.2''])]])],
             [Query ''b.c'' ''10.0.0.1'' T_NS], ''10.0.0.2'') \<and>
   Query ''b.c'' ''10.0.0.1'' T_NS \<notin> set [Query ''b.c'' ''10.0.0.2'' T_A] \<and>
   resolve cycle_net ''a'' [] [] = Some (Ips [''5.6.7.8''], cycle_cache, cycle_hist) \<and>
   chase cycle_net 2 ''a'' [] []
     = Some (''a'', [(''a'', [B_NS [''ns.a''], B_NS_IP []]), (''b'', [B_NS [''ns.b''], B_NS_IP []])],
             [Query ''a'' ROOT_SERVER T_NS, Lookup ''ns.a'', Query ''a'' ''9.9.9.9'' T_A,
              Query ''b'' ROOT_SERVER T_NS, Lookup ''ns.b'', Query ''b'' ''9.9.9.9'' T_A]) \<and>
   Query ''a'' ROOT_SERVER T_NS \<notin> set [Query ''a'' ROOT_SERVER T_A] \<and>
   resolve abc_net ''b.c'' bc_cache [] = Some (Ips [''1.2.3.4''], bc_cache, [])"
proof -
  let ?mid = "[(''c'', [B_NS [''ns.c''], B_NS_IP [(''ns.c'', [''10.0.0.1''])]]),
               (''b.c'', [B_NS [''ns.b.c''], B_NS_IP [(''ns.b.c'', [''10.0.0.2''])]])]"
  let ?q1 = "Query ''b.c'' ''10.0.0.1'' T_NS"
  let ?q2 = "Query ''b.c'' ''10.0.0.2'' T_A"
  have n1: "cache_NS c_cache ''c'' = Some [''ns.c'']"
    by (simp add: c_cache_def cache_NS_def cache_get_def cache_entry_def)
  have n2: "cache_NS c_cache ''b.c'' = None"
    by (simp add: c_cache_def cache_NS_def cache_get_def cache_entry_def)
  have r: "resolve abc_net ''b.c'' c_cache [] = Some (Ips [''1.2.3.4''], bc_cache, [?q1, ?q2])"
    unfolding bc_cache_def
    by (subst resolve.simps)
       (simp add: eval_defs rec_defs abc_net_def abc_ip_def c_cache_def query_step_def Let_def
          a_records_def)
  have ch0: "chase abc_net 0 ''b.c'' c_cache [] = Some (''b.c'', c_cache, [])"
    by simp
  have a0: "cache_A c_cache ''b.c'' = None"
    by (simp add: c_cache_def cache_A_def cache_get_def cache_entry_def)
  have k: "rounds abc_net 2 (suffixes_of ''b.c'', c_cache, [], ROOT_SERVER)
     = Some ([], ?mid, [?q1], ''10.0.0.2'')"
    by (simp add: eval_defs rec_defs abc_net_def abc_ip_def c_cache_def query_step_def Let_def
        numeral_2_eq_2)
  have m: "cache_NS ?mid ''b.c'' \<noteq> None"
    by (simp add: cache_NS_def cache_get_def cache_entry_def)
  from never_queries_cached_bucket [where net = abc_net and d = "''b.c''" and c = c_cache
      and h = "[]" and res = "Ips [''1.2.3.4'']" and cz = bc_cache and hz = "[?q1, ?q2]"
      and n = 0 and d' = "''b.c''" and c' = c_cache and h' = "[]" and k = 2 and sufs = "[]"
      and ?c1.0 = ?mid and ?h1.0 = "[?q1]" and ?srv1.0 = "''10.0.0.2''",
      THEN conjunct2, THEN conjunct1, rule_format, OF r ch0 a0 k]
  obtain evs where e: "[?q1, ?q2] = [?q1] @ evs"
    "\<forall>s srv. cache_NS ?mid s \<noteq> None \<longrightarrow> Query s srv T_NS \<notin> set evs"
    by (elim exE conjE)
  from e(1) have ev: "evs = [?q2]" by simp
  from e(2) m have "?q1 \<notin> set evs" by (elim allE impE)
  with ev have q: "?q1 \<notin> set [?q2]" by simp
  let ?c2 = "[(''a'', [B_NS [''ns.a''], B_NS_IP []]), (''b'', [B_NS [''ns.b''], B_NS_IP []])]"
  let ?h2 = "[Query ''a'' ROOT_SERVER T_NS, Lookup ''ns.a'', Query ''a'' ''9.9.9.9'' T_A,
              Query ''b'' ROOT_SERVER T_NS, Lookup ''ns.b'', Query ''b'' ''9.9.9.9'' T_A]"
  have ch2: "chase cycle_net 2 ''a'' [] [] = Some (''a'', ?c2, ?h2)"
    by (simp add: cycle_defs numeral_2_eq_2)
  have cr: "resolve cycle_net ''a'' [] []
      = Some (Ips [''5.6.7.8''], cycle_cache, ?h2 @ [Query ''a'' ROOT_SERVER T_A])"
    using cycle_run by (simp add: cycle_hist_def)
  have m2: "cache_NS ?c2 ''a'' \<noteq> None"
    by (simp add: cache_NS_def cache_get_def cache_entry_def)
  from never_queries_cached_bucket [where net = cycle_net and d = "''a''" and c = "[]"
      and h = "[]" and res = "Ips [''5.6.7.8'']" and cz = cycle_cache
      and hz = "?h2 @ [Query ''a'' ROOT_SERVER T_A]"
      and n = 2 and d' = "''a''" and c' = ?c2 and h' = ?h2,
      THEN conjunct1, rule_format, OF cr ch2]
  obtain evs' where e': "?h2 @ [Query ''a'' ROOT_SERVER T_A] = ?h2 @ evs'"
    "\<forall>s srv. cache_NS ?c2 s \<noteq> None \<longrightarrow> Query s srv T_NS \<notin> set evs'"
    by (elim exE conjE)
  from e'(1) have ev': "evs' = [Query ''a'' ROOT_SERVER T_A]" by simp
  from e'(2) m2 have "Query ''a'' ROOT_SERVER T_NS \<notin> set evs'" by (elim allE impE)
  with ev' have q': "Query ''a'' ROOT_SERVER T_NS \<notin> set [Query ''a'' ROOT_SERVER T_A]" by simp
  have a: "cache_A bc_cache ''b.c'' \<noteq> None"
    by (simp add: bc_cache_def cache_A_def cache_get_def cache_entry_def)
  from never_queries_cached_bucket [where net = abc_net and d = "''b.c''" and c = bc_cache
      and h = "[]", THEN conjunct2, THEN conjunct2, THEN conjunct1, rule_format, OF a]
  obtain ips where "resolve abc_net ''b.c'' bc_cache [] = Some (Ips ips, bc_cache, [])"
    by (elim exE)
  moreover have "resolve abc_net ''b.c'' bc_cache [] = Some (Ips [''1.2.3.4''], bc_cache, [])"
    by (subst resolve.simps) (simp add: bc_cache_def cache_A_def cache_get_def cache_entry_def)
  ultimately have r2: "resolve abc_net ''b.c'' bc_cache [] = Some (Ips [''1.2.3.4''], bc_cache, [])"
    by simp
  show ?thesis
    by (intro conjI n1 n2 r k q cycle_run ch2 q' r2)
qed

end
